theory Spec2Isabelle
  imports Complex_Main
begin

section \<open>Coverage windowing (tools.py)\<close>

text \<open>
  Python exceptions are values: every function that can raise returns
  \<open>py_error + 'a\<close>, with \<open>Inl\<close> the exception.
\<close>

datatype py_error = ValueError | IndexError | KeyError | TypeError | OverflowError
  | InsufficientDataError

text \<open>
  Array elements are kept abstract: any type with \<open>0\<close>, \<open>1\<close>, \<open>+\<close>, \<open>*\<close> and
  \<open>/\<close>. The code computes in float64, which obeys no field law, so the definitions
  assume none; float64 itself is the instance \<open>f64\<close> of the next section. The sum of a
  window is taken left to right; the shape, memoization and alignment results below hold
  for every arithmetic.
\<close>

primrec from_nat :: "nat \<Rightarrow> 'a::{zero,one,plus}" where
  "from_nat 0 = 0"
| "from_nat (Suc n) = from_nat n + 1"

definition ones :: "nat \<Rightarrow> 'a::one list" where
  "ones n = replicate n 1"

definition dot :: "'a::{zero,plus,times} list \<Rightarrow> 'a list \<Rightarrow> 'a" where
  "dot xs ys = foldl (\<lambda>s (x, y). s + x * y) 0 (zip xs ys)"

text \<open>
  \<open>multiarray.correlate(a, w, 'valid')\<close> for \<open>length w \<le> length a\<close>: one inner
  product for each position where \<open>w\<close> lies wholly inside \<open>a\<close>.
\<close>

definition correlate_valid :: "'a::{zero,plus,times} list \<Rightarrow> 'a list \<Rightarrow> 'a list" where
  "correlate_valid a w =
     map (\<lambda>k. dot (take (length w) (drop k a)) w) [0 ..< length a - length w + 1]"

text \<open>
  \<open>np.convolve(a, v, mode="valid")\<close>: numpy swaps the operands when \<open>v\<close> is the
  longer one, refuses an empty operand, and correlates with the reversed kernel.
\<close>

definition convolve_valid :: "'a::{zero,plus,times} list \<Rightarrow> 'a list \<Rightarrow> py_error + 'a list" where
  "convolve_valid a v =
     (let (a', v') = (if length v > length a then (v, a) else (a, v))
      in if a' = [] then Inl ValueError
         else if v' = [] then Inl ValueError
         else Inr (correlate_valid a' (rev v')))"

text \<open>The slice \<open>x[::step]\<close> for a positive step: the first element, then every step-th.\<close>

fun decimate :: "nat \<Rightarrow> 'a list \<Rightarrow> 'a list" where
  "decimate s [] = []"
| "decimate s (x # xs) = x # decimate s (drop (s - 1) xs)"

definition slice_step :: "'a list \<Rightarrow> nat \<Rightarrow> py_error + 'a list" where
  "slice_step xs s = (if s = 0 then Inl ValueError else Inr (decimate s xs))"

definition avg_window :: "'a::{zero,one,plus,times,inverse} list \<Rightarrow> nat \<Rightarrow> nat \<Rightarrow> py_error + 'a list" where
  "avg_window x window_size window_step =
     (case convolve_valid x (map (\<lambda>y. y / from_nat window_size) (ones window_size)) of
        Inl e \<Rightarrow> Inl e
      | Inr x_conv \<Rightarrow> slice_step x_conv window_step)"

text \<open>
  \<open>np.apply_along_axis(f, 1, m)\<close> on a two-dimensional array: \<open>f\<close> on every row;
  numpy refuses an array with no row.
\<close>

fun map_rows :: "('a list \<Rightarrow> py_error + 'b list) \<Rightarrow> 'a list list \<Rightarrow> py_error + 'b list list" where
  "map_rows f [] = Inr []"
| "map_rows f (r # rs) =
     (case f r of
        Inl e \<Rightarrow> Inl e
      | Inr y \<Rightarrow> (case map_rows f rs of Inl e \<Rightarrow> Inl e | Inr ys \<Rightarrow> Inr (y # ys)))"

definition apply_along_axis :: "('a list \<Rightarrow> py_error + 'b list) \<Rightarrow> 'a list list \<Rightarrow> py_error + 'b list list" where
  "apply_along_axis f m = (if m = [] then Inl ValueError else map_rows f m)"

text \<open>The windowed coverage of one slice, as line 76 of tools.py computes it.\<close>

definition window_slice :: "'a::{zero,one,plus,times,inverse} list list \<Rightarrow> nat \<Rightarrow> nat \<Rightarrow> py_error + 'a list list" where
  "window_slice m window_size window_step =
     apply_along_axis (\<lambda>x. avg_window x window_size window_step) m"

text \<open>
  \<open>ceil((frag_len - window_size + 1) / window_step)\<close> of line 63. \<open>frag_len\<close> is a
  numpy integer, so a step of 0 divides to \<open>inf\<close>, or to \<open>nan\<close> for \<open>0 / 0\<close>, and
  \<open>math.ceil\<close> raises \<open>OverflowError\<close> on the first and \<open>ValueError\<close> on the second.
\<close>

definition conv_shape :: "int \<Rightarrow> nat \<Rightarrow> nat \<Rightarrow> py_error + int" where
  "conv_shape frag_len window_size window_step =
     (if window_step = 0
      then (if frag_len - int window_size + 1 = 0 then Inl ValueError else Inl OverflowError)
      else Inr \<lceil>(of_int (frag_len - int window_size + 1) :: rat) / of_nat window_step\<rceil>)"

section \<open>The float64 arithmetic of numpy\<close>

text \<open>
  A finite float64 is its exact rational value. Every operation is the exact one
  followed by rounding to nearest, ties to even, onto 53 significant bits, with the
  subnormal spacing \<open>2 ^ -1074\<close> below \<open>2 ^ -1022\<close> (IEEE 754 binary64). Infinities and
  NaN are left out: the rounding is that of values below the overflow threshold, and
  \<open>avg_window\<close> never divides by zero, since the kernel \<open>np.ones(0) / 0\<close> is empty.
\<close>

datatype f64 = F rat

fun floor_log2 :: "nat \<Rightarrow> nat" where
  "floor_log2 n = (if n < 2 then 0 else Suc (floor_log2 (n div 2)))"

declare floor_log2.simps [simp del]

text \<open>The binary exponent of a positive rational: \<open>2 powi e \<le> x < 2 powi (e + 1)\<close>.\<close>

definition exponent :: "rat \<Rightarrow> int" where
  "exponent x =
     (let (p, q) = quotient_of x;
          e = int (floor_log2 (nat p)) - int (floor_log2 (nat q))
      in if 2 powi e \<le> x then e else e - 1)"

definition round_half_even :: "rat \<Rightarrow> int" where
  "round_half_even x =
     (let n = \<lfloor>x\<rfloor>; r = x - of_int n
      in if r < 1 / 2 then n
         else if 1 / 2 < r then n + 1
         else if even n then n else n + 1)"

definition round64 :: "rat \<Rightarrow> rat" where
  "round64 x =
     (if x = 0 then 0
      else (let e = max (exponent \<bar>x\<bar>) (- 1022);
                ulp = 2 powi (e - 52)
            in of_int (round_half_even (x / ulp)) * ulp))"

instantiation f64 :: "{zero, one, plus, times, inverse}"
begin

definition zero_f64 :: f64 where
  "zero_f64 = F 0"

definition one_f64 :: f64 where
  "one_f64 = F 1"

fun plus_f64 :: "f64 \<Rightarrow> f64 \<Rightarrow> f64" where
  "F a + F b = F (round64 (a + b))"

fun times_f64 :: "f64 \<Rightarrow> f64 \<Rightarrow> f64" where
  "F a * F b = F (round64 (a * b))"

fun inverse_f64 :: "f64 \<Rightarrow> f64" where
  "inverse (F a) = F (round64 (inverse a))"

fun divide_f64 :: "f64 \<Rightarrow> f64 \<Rightarrow> f64" where
  "divide (F a) (F b) = F (round64 (a / b))"

instance ..

end

section \<open>Coverage of a batch of fragment pairs (tools.py, get_coverage)\<close>

text \<open>
  A fragment is a row \<open>(sp, start, end)\<close> of the structured array \<open>pairs\<close>, with
  non-negative coordinates; a batch is the list of its rows \<open>(A, B)\<close>. The coverage
  file maps a contig to its matrix of depths, one row for each sample. The fragment
  length of line 58 is the difference \<open>end - start\<close> as an integer.
\<close>

type_synonym 'c frag = "'c \<times> nat \<times> nat"

definition sp :: "'c frag \<Rightarrow> 'c" where
  "sp f = fst f"

definition frag_start :: "'c frag \<Rightarrow> nat" where
  "frag_start f = fst (snd f)"

definition frag_end :: "'c frag \<Rightarrow> nat" where
  "frag_end f = snd (snd f)"

text \<open>\<open>np.concatenate([pairs[:, 0], pairs[:, 1]])\<close>: all A fragments, then all B fragments.\<close>

definition concat_pairs :: "('c frag \<times> 'c frag) list \<Rightarrow> 'c frag list" where
  "concat_pairs pairs = map fst pairs @ map snd pairs"

text \<open>\<open>np.unique\<close>: the sorted distinct values.\<close>

definition np_unique :: "'c::linorder list \<Rightarrow> 'c list" where
  "np_unique xs = sort (remdups xs)"

text \<open>
  The dictionary \<open>coverage_data\<close>, in insertion order; \<open>h5data.get(ctg)\<close> is \<open>None\<close>
  for a contig that the file lacks, and \<open>None[:]\<close> raises \<open>TypeError\<close>.
\<close>

fun load_coverage :: "('c \<rightharpoonup> 'a list list) \<Rightarrow> 'c list \<Rightarrow> py_error + ('c \<times> 'a list list) list" where
  "load_coverage h5data [] = Inr []"
| "load_coverage h5data (ctg # contigs) =
     (case h5data ctg of
        None \<Rightarrow> Inl TypeError
      | Some m \<Rightarrow> (case load_coverage h5data contigs of
                    Inl e \<Rightarrow> Inl e
                  | Inr d \<Rightarrow> Inr ((ctg, m) # d)))"

text \<open>The slice \<open>m[:, start:end]\<close> for non-negative bounds; Python clips it to the row.\<close>

definition slice_cols :: "'a list list \<Rightarrow> nat \<Rightarrow> nat \<Rightarrow> 'a list list" where
  "slice_cols m start end = map (\<lambda>row. take (end - start) (drop start row)) m"

text \<open>Lines 76 to 80: the windowed coverage of one fragment.\<close>

definition frag_coverage :: "('c \<times> 'a::{zero,one,plus,times,inverse} list list) list \<Rightarrow> nat \<Rightarrow> nat \<Rightarrow> 'c frag
    \<Rightarrow> py_error + 'a list list" where
  "frag_coverage coverage_data window_size window_step f =
     (case map_of coverage_data (sp f) of
        None \<Rightarrow> Inl KeyError
      | Some m \<Rightarrow> window_slice (slice_cols m (frag_start f) (frag_end f)) window_size window_step)"

text \<open>
  The assignment \<open>coverage_feature[k] = cov_sp\<close> into a block of shape
  \<open>(n_samples, conv_shape)\<close>: numpy casts the values to the block's dtype (float32,
  the parameter \<open>cast\<close>) and broadcasts an axis of length 1; any other shape raises
  \<open>ValueError\<close>.
\<close>

definition store_block :: "('a \<Rightarrow> 'b) \<Rightarrow> nat \<Rightarrow> nat \<Rightarrow> 'a list list \<Rightarrow> py_error + 'b list list" where
  "store_block cast n_samples n_cols cov_sp =
     (if (length cov_sp = n_samples \<or> length cov_sp = 1) \<and>
         (\<forall>row\<in>set cov_sp. length row = n_cols \<or> length row = 1)
      then Inr (map (\<lambda>i. let row = (if length cov_sp = 1 then cov_sp ! 0 else cov_sp ! i)
                          in map (\<lambda>j. cast (if length row = 1 then row ! 0 else row ! j)) [0 ..< n_cols])
                [0 ..< n_samples])
      else Inl ValueError)"

text \<open>
  The loop of lines 69 to 83 over the sorted indices, with the memo table \<open>seen\<close> and
  the array \<open>coverage_feature\<close> as its state. \<open>compute\<close> is the windowing of one
  fragment and \<open>store\<close> the assignment into one block.
\<close>

fun cov_loop :: "('c frag \<Rightarrow> py_error + 'a list list) \<Rightarrow> ('a list list \<Rightarrow> py_error + 'b list list)
    \<Rightarrow> 'c frag list \<Rightarrow> nat list \<Rightarrow> ('c \<times> nat \<rightharpoonup> 'a list list) \<Rightarrow> 'b list list list
    \<Rightarrow> py_error + 'b list list list" where
  "cov_loop compute store frags [] seen coverage_feature = Inr coverage_feature"
| "cov_loop compute store frags (k # ks) seen coverage_feature =
     (let (species, start, end) = frags ! k
      in case (case seen (species, start) of
                 Some cov_sp \<Rightarrow> Inr (cov_sp, seen)
               | None \<Rightarrow> (case compute (species, start, end) of
                            Inl e \<Rightarrow> Inl e
                          | Inr cov_sp \<Rightarrow> Inr (cov_sp, seen((species, start) \<mapsto> cov_sp)))) of
           Inl e \<Rightarrow> Inl e
         | Inr (cov_sp, seen') \<Rightarrow>
             (case store cov_sp of
                Inl e \<Rightarrow> Inl e
              | Inr block \<Rightarrow> cov_loop compute store frags ks seen' (coverage_feature[k := block])))"

text \<open>
  \<open>get_coverage\<close>. \<open>np.argsort\<close> (numpy's default sort is not stable) is the parameter
  \<open>argsort\<close>; the memo table starts empty at every call and is not returned.
\<close>

definition get_coverage :: "('c::linorder list \<Rightarrow> nat list) \<Rightarrow> ('a::{zero,one,plus,times,inverse} \<Rightarrow> 'b::zero)
    \<Rightarrow> ('c frag \<times> 'c frag) list \<Rightarrow> ('c \<rightharpoonup> 'a list list) \<Rightarrow> nat \<Rightarrow> nat
    \<Rightarrow> py_error + ('b list list list \<times> 'b list list list)" where
  "get_coverage argsort cast pairs coverage_h5 window_size window_step =
     (let contigs = np_unique (map sp (concat_pairs pairs))
      in case load_coverage coverage_h5 contigs of
           Inl e \<Rightarrow> Inl e
         | Inr coverage_data \<Rightarrow>
     (let n_pairs = length pairs
      in case coverage_data of
           [] \<Rightarrow> Inl IndexError
         | (_, m0) # _ \<Rightarrow>
     (let n_samples = length m0
      in case pairs of
           [] \<Rightarrow> Inl IndexError
         | (a0, _) # _ \<Rightarrow>
     (let frag_len = int (frag_end a0) - int (frag_start a0);
          frags = concat_pairs pairs;
          sorted_idx = argsort (map sp frags)
      in case conv_shape frag_len window_size window_step of
           Inl e \<Rightarrow> Inl e
         | Inr n_cols \<Rightarrow>
             if n_cols < 0 then Inl ValueError
             else if \<exists>k\<in>set sorted_idx. length frags \<le> k then Inl IndexError
             else (case cov_loop (frag_coverage coverage_data window_size window_step)
                         (store_block cast n_samples (nat n_cols)) frags sorted_idx Map.empty
                         (replicate (2 * n_pairs) (replicate n_samples (replicate (nat n_cols) 0))) of
                     Inl e \<Rightarrow> Inl e
                   | Inr coverage_feature \<Rightarrow>
                       Inr (take n_pairs coverage_feature, drop n_pairs coverage_feature))))))"

text \<open>A stable \<open>argsort\<close>, one of the orders numpy may return.\<close>

definition argsort_stable :: "'c::linorder list \<Rightarrow> nat list" where
  "argsort_stable keys = map snd (sort_key fst (zip keys [0 ..< length keys]))"

subsection \<open>The reference: every fragment recomputed\<close>

text \<open>
  The same loop with no memo table: the windowed coverage of every fragment is computed
  from the coverage data, whether or not its region was met before.
\<close>

fun ref_loop :: "('c frag \<Rightarrow> py_error + 'a list list) \<Rightarrow> ('a list list \<Rightarrow> py_error + 'b list list)
    \<Rightarrow> 'c frag list \<Rightarrow> nat list \<Rightarrow> 'b list list list \<Rightarrow> py_error + 'b list list list" where
  "ref_loop compute store frags [] coverage_feature = Inr coverage_feature"
| "ref_loop compute store frags (k # ks) coverage_feature =
     (case compute (frags ! k) of
        Inl e \<Rightarrow> Inl e
      | Inr cov_sp \<Rightarrow>
          (case store cov_sp of
             Inl e \<Rightarrow> Inl e
           | Inr block \<Rightarrow> ref_loop compute store frags ks (coverage_feature[k := block])))"

definition get_coverage_ref :: "('c::linorder list \<Rightarrow> nat list) \<Rightarrow> ('a::{zero,one,plus,times,inverse} \<Rightarrow> 'b::zero)
    \<Rightarrow> ('c frag \<times> 'c frag) list \<Rightarrow> ('c \<rightharpoonup> 'a list list) \<Rightarrow> nat \<Rightarrow> nat
    \<Rightarrow> py_error + ('b list list list \<times> 'b list list list)" where
  "get_coverage_ref argsort cast pairs coverage_h5 window_size window_step =
     (let contigs = np_unique (map sp (concat_pairs pairs))
      in case load_coverage coverage_h5 contigs of
           Inl e \<Rightarrow> Inl e
         | Inr coverage_data \<Rightarrow>
     (let n_pairs = length pairs
      in case coverage_data of
           [] \<Rightarrow> Inl IndexError
         | (_, m0) # _ \<Rightarrow>
     (let n_samples = length m0
      in case pairs of
           [] \<Rightarrow> Inl IndexError
         | (a0, _) # _ \<Rightarrow>
     (let frag_len = int (frag_end a0) - int (frag_start a0);
          frags = concat_pairs pairs;
          sorted_idx = argsort (map sp frags)
      in case conv_shape frag_len window_size window_step of
           Inl e \<Rightarrow> Inl e
         | Inr n_cols \<Rightarrow>
             if n_cols < 0 then Inl ValueError
             else if \<exists>k\<in>set sorted_idx. length frags \<le> k then Inl IndexError
             else (case ref_loop (frag_coverage coverage_data window_size window_step)
                         (store_block cast n_samples (nat n_cols)) frags sorted_idx
                         (replicate (2 * n_pairs) (replicate n_samples (replicate (nat n_cols) 0))) of
                     Inl e \<Rightarrow> Inl e
                   | Inr coverage_feature \<Rightarrow>
                       Inr (take n_pairs coverage_feature, drop n_pairs coverage_feature))))))"

text \<open>All fragments of a batch have the same length \<open>end - start\<close>.\<close>

definition uniform_length :: "'c frag list \<Rightarrow> bool" where
  "uniform_length frags \<longleftrightarrow>
     (\<forall>f\<in>set frags. \<forall>g\<in>set frags.
        int (frag_end f) - int (frag_start f) = int (frag_end g) - int (frag_start g))"

text \<open>
  The invariant of the memo table: an entry for \<open>(species, start)\<close> holds what
  \<open>compute\<close> returns on every fragment of the batch with that contig and start.
\<close>

definition seen_ok :: "('c frag \<Rightarrow> py_error + 'a list list) \<Rightarrow> 'c frag list
    \<Rightarrow> ('c \<times> nat \<rightharpoonup> 'a list list) \<Rightarrow> bool" where
  "seen_ok compute frags seen \<longleftrightarrow>
     (\<forall>f\<in>set frags. \<forall>c. seen (sp f, frag_start f) = Some c \<longrightarrow> compute f = Inr c)"

text \<open>
  The windowed coverage of one fragment, read from the coverage file itself: the slice
  \<open>[start, end)\<close> of every sample of the fragment's contig, windowed.
\<close>

definition windowed_coverage :: "('c \<rightharpoonup> 'a::{zero,one,plus,times,inverse} list list) \<Rightarrow> nat \<Rightarrow> nat \<Rightarrow> 'c frag
    \<Rightarrow> py_error + 'a list list" where
  "windowed_coverage coverage_h5 window_size window_step f =
     (case coverage_h5 (sp f) of
        None \<Rightarrow> Inl TypeError
      | Some m \<Rightarrow> window_slice (slice_cols m (frag_start f) (frag_end f)) window_size window_step)"

section \<open>The train and test assemblies (coconet.py, make_train_test)\<close>

text \<open>\<open>int(x)\<close> on a float: truncation towards zero.\<close>

definition py_int :: "rat \<Rightarrow> int" where
  "py_int x = (if 0 \<le> x then \<lfloor>x\<rfloor> else \<lceil>x\<rceil>)"

text \<open>
  Line 125. \<open>cfg.test_ratio\<close> is a float and its product with \<open>n_ctg\<close> is rounded to
  a float before \<open>int\<close> truncates it: \<open>test_ratio\<close> is the exact value of the float
  and \<open>rnd\<close> the rounding of the exact product.
\<close>

definition n_ctg_for_test :: "(rat \<Rightarrow> rat) \<Rightarrow> rat \<Rightarrow> nat \<Rightarrow> int" where
  "n_ctg_for_test rnd test_ratio n_ctg = max 2 (py_int (rnd (test_ratio * of_nat n_ctg)))"

text \<open>
  \<open>np.random.choice(a, n)\<close> for integers: \<open>n\<close> draws below \<open>a\<close>, with
  replacement; \<open>rng\<close> is the stream of raw random numbers. numpy refuses to draw from
  an empty range.
\<close>

definition np_random_choice :: "(nat \<Rightarrow> nat) \<Rightarrow> nat \<Rightarrow> nat \<Rightarrow> py_error + nat list" where
  "np_random_choice rng a n =
     (if a = 0 \<and> 0 < n then Inl ValueError
      else Inr (map (\<lambda>i. rng i mod a) [0 ..< n]))"

text \<open>\<open>np.setdiff1d(range(n), ar2)\<close>: the values of the range not in \<open>ar2\<close>, in order.\<close>

definition setdiff1d_range :: "nat \<Rightarrow> nat list \<Rightarrow> nat list" where
  "setdiff1d_range n ar2 = filter (\<lambda>i. i \<notin> set ar2) [0 ..< n]"

text \<open>Lines 125 to 128: the pair \<open>(assembly_idx['test'], assembly_idx['train'])\<close>.\<close>

definition assembly_idx :: "(rat \<Rightarrow> rat) \<Rightarrow> (nat \<Rightarrow> nat) \<Rightarrow> rat \<Rightarrow> nat \<Rightarrow> py_error + (nat list \<times> nat list)" where
  "assembly_idx rnd rng test_ratio n_ctg =
     (case np_random_choice rng n_ctg (nat (n_ctg_for_test rnd test_ratio n_ctg)) of
        Inl e \<Rightarrow> Inl e
      | Inr test \<Rightarrow> Inr (test, setdiff1d_range n_ctg test))"

section \<open>The fragment pair sampler (coconet.fragmentation, make_pairs)\<close>

text \<open>
  \<open>make_train_test\<close> hands each assembly to \<open>make_pairs\<close>, which is imported from
  \<open>coconet.fragmentation\<close>; that module is not among the sources, so the sampler is
  modelled from section 4.2 of the specification. A contig is its identifier and its
  length; random choices are read from the stream \<open>rng\<close>.
\<close>

type_synonym 'c contig = "'c \<times> nat"

text \<open>
  Modelled from the spec: the fragments of a contig (section 3), which
  \<open>coconet.fragmentation\<close> would cut. A contig of length \<open>L\<close> yields
  \<open>floor((L - fragment_length) / fragment_step) + 1\<close> fragments \<open>[start, end)\<close> of
  length \<open>fragment_length\<close>, at \<open>fragment_step\<close> spacing; a step of 0 leaves the one
  fragment at 0.
\<close>

definition fragments_of :: "nat \<Rightarrow> nat \<Rightarrow> 'c contig \<Rightarrow> 'c frag list" where
  "fragments_of fragment_step fragment_length ctg =
     map (\<lambda>k. (fst ctg, k * fragment_step, k * fragment_step + fragment_length))
       [0 ..< (if fragment_step = 0 then 1
               else (snd ctg - fragment_length) div fragment_step + 1)]"

text \<open>
  Modelled from the spec: the fragments that \<open>make_pairs\<close> may sample. No contig
  shorter than \<open>fragment_length\<close> is sampled, and the same region is counted once.
\<close>

definition eligible_fragments :: "nat \<Rightarrow> nat \<Rightarrow> 'c contig list \<Rightarrow> 'c frag list" where
  "eligible_fragments fragment_step fragment_length contigs =
     remdups (concat (map (fragments_of fragment_step fragment_length)
                        (filter (\<lambda>ctg. fragment_length \<le> snd ctg) contigs)))"

text \<open>Modelled from the spec: the number of eligible contigs of \<open>make_pairs\<close>.\<close>

definition n_eligible :: "nat \<Rightarrow> nat \<Rightarrow> 'c contig list \<Rightarrow> nat" where
  "n_eligible fragment_step fragment_length contigs =
     length (remdups (map sp (eligible_fragments fragment_step fragment_length contigs)))"

text \<open>All unordered pairs of a list, each once.\<close>

fun pairs_of :: "'a list \<Rightarrow> ('a \<times> 'a) list" where
  "pairs_of [] = []"
| "pairs_of (x # xs) = map (Pair x) xs @ pairs_of xs"

text \<open>
  Modelled from the spec: the labels of a pair (section 3), as \<open>make_pairs\<close> would
  assign them. A pair is positive if both fragments come from the same contig and
  negative otherwise.
\<close>

definition positive :: "'c frag \<times> 'c frag \<Rightarrow> bool" where
  "positive p \<longleftrightarrow> sp (fst p) = sp (snd p)"

definition overlapping :: "'c frag \<times> 'c frag \<Rightarrow> bool" where
  "overlapping p \<longleftrightarrow>
     frag_start (fst p) < frag_end (snd p) \<and> frag_start (snd p) < frag_end (fst p)"

text \<open>
  Modelled from the spec: the positive pairs that \<open>make_pairs\<close> can form, two
  fragments of one contig, non-overlapping where the contig has such a pair.
\<close>

definition positive_pairs :: "'c frag list \<Rightarrow> ('c frag \<times> 'c frag) list" where
  "positive_pairs frs =
     (let cand = filter positive (pairs_of frs)
      in filter (\<lambda>p. \<not> overlapping p \<or>
                      \<not> (\<exists>q\<in>set cand. sp (fst q) = sp (fst p) \<and> \<not> overlapping q)) cand)"

text \<open>
  Modelled from the spec: the negative pairs that \<open>make_pairs\<close> can form, fragments
  of two distinct contigs.
\<close>

definition negative_pairs :: "'c frag list \<Rightarrow> ('c frag \<times> 'c frag) list" where
  "negative_pairs frs = filter (\<lambda>p. \<not> positive p) (pairs_of frs)"

text \<open>
  Modelled from the spec: a random choice of \<open>k\<close> elements of a list without
  replacement, the way \<open>make_pairs\<close> picks among the feasible pairs.
\<close>

fun draw :: "(nat \<Rightarrow> nat) \<Rightarrow> nat \<Rightarrow> 'a list \<Rightarrow> 'a list" where
  "draw rng 0 xs = []"
| "draw rng (Suc k) xs =
     (if xs = [] then []
      else (let i = rng k mod length xs
            in xs ! i # draw rng k (take i xs @ drop (Suc i) xs)))"

text \<open>
  Modelled from the spec: the feasible pair count of \<open>make_pairs\<close> after
  deduplication, the size of the largest set of distinct pairs that is half positive
  and half negative.
\<close>

definition feasible_pair_count :: "'c frag list \<Rightarrow> nat" where
  "feasible_pair_count frs =
     2 * min (length (positive_pairs frs)) (length (negative_pairs frs))"

text \<open>
  Modelled from the spec: \<open>make_pairs\<close> of \<open>coconet.fragmentation\<close>, with the arguments
  in the order of the call at line 133. It fails with \<open>InsufficientDataError\<close> when
  fewer than 2 eligible contigs exist or when the requested \<open>n_examples\<close> exceeds the
  feasible pair count; otherwise it returns \<open>n_examples / 2\<close> positive pairs followed
  by \<open>n_examples / 2\<close> negative pairs, the halves rounded down as Python's integer
  division does.
\<close>

definition make_pairs :: "(nat \<Rightarrow> nat) \<Rightarrow> 'c contig list \<Rightarrow> nat \<Rightarrow> nat \<Rightarrow> nat
    \<Rightarrow> py_error + ('c frag \<times> 'c frag) list" where
  "make_pairs rng contigs fragment_step fragment_length n_examples =
     (let frs = eligible_fragments fragment_step fragment_length contigs;
          k = n_examples div 2
      in if n_eligible fragment_step fragment_length contigs < 2 then Inl InsufficientDataError
         else if feasible_pair_count frs < n_examples then Inl InsufficientDataError
         else Inr (draw rng k (positive_pairs frs) @ draw (\<lambda>i. rng (k + i)) k (negative_pairs frs)))"

section \<open>The neighbor graph builder (coconet.clustering, make_pregraph)\<close>

text \<open>
  \<open>cluster\<close> (coconet.py, line 224) calls \<open>make_pregraph\<close> with the vote threshold and
  the neighbor bound of the configuration, \<open>n_frags\<close> of the saved configuration, and
  its own \<open>force\<close> argument unchanged. \<open>make_pregraph\<close> is imported from
  \<open>coconet.clustering\<close>, which is not among the sources, so the builder is modelled
  from section 4.3 of the specification. The scorer \<open>score\<close>, the pre-filter
  \<open>prefilter\<close> and the fixed fragment pairs of two contigs \<open>pairs_for\<close> are external
  collaborators and stay parameters.
\<close>

type_synonym 'c graph = "('c \<times> 'c \<times> nat) list"

text \<open>
  Modelled from the spec: the candidate neighbors that \<open>make_pregraph\<close> retains for a
  contig, at most \<open>max_neighbors\<close> contigs of the input ranked by the pre-filter, the
  contig itself never among them.
\<close>

definition candidates :: "('c \<Rightarrow> 'c list) \<Rightarrow> 'c list \<Rightarrow> nat \<Rightarrow> 'c \<Rightarrow> 'c list" where
  "candidates prefilter contigs max_neighbors u =
     take max_neighbors (filter (\<lambda>v. v \<noteq> u \<and> v \<in> set contigs) (prefilter u))"

text \<open>
  Modelled from the spec: the vote of \<open>make_pregraph\<close> for a pair of contigs, the
  number of its up to \<open>n_frags\<close> fragment pairs that the scorer gives a probability
  above the decision threshold 0.5.
\<close>

definition vote_count :: "('c \<Rightarrow> 'c \<Rightarrow> 'p list) \<Rightarrow> ('p \<Rightarrow> rat) \<Rightarrow> nat \<Rightarrow> 'c \<Rightarrow> 'c \<Rightarrow> nat" where
  "vote_count pairs_for score n_frags u v =
     length (filter (\<lambda>p. 1 / 2 < score p) (take n_frags (pairs_for u v)))"

text \<open>
  Modelled from the spec: the graph that \<open>make_pregraph\<close> computes, an edge
  \<open>(u, v, vote)\<close> for every retained candidate pair with \<open>vote \<ge> vote_threshold\<close>.
\<close>

definition build :: "('c \<Rightarrow> 'c list) \<Rightarrow> ('c \<Rightarrow> 'c \<Rightarrow> 'p list) \<Rightarrow> ('p \<Rightarrow> rat) \<Rightarrow> 'c list \<Rightarrow> nat \<Rightarrow> nat \<Rightarrow> nat
    \<Rightarrow> 'c graph" where
  "build prefilter pairs_for score contigs vote_threshold n_frags max_neighbors =
     concat (map (\<lambda>u. map (\<lambda>v. (u, v, vote_count pairs_for score n_frags u v))
                         (filter (\<lambda>v. vote_threshold \<le> vote_count pairs_for score n_frags u v)
                            (candidates prefilter contigs max_neighbors u)))
               contigs)"

text \<open>
  Modelled from the spec: \<open>make_pregraph\<close> of \<open>coconet.clustering\<close> with its persisted
  artifacts, a table from the input and the parameters to the graph stored for them.
  With an artifact for the same input and parameters and \<open>force\<close> false the stored graph
  is returned and nothing is written; otherwise the graph is computed and persisted.
\<close>

definition make_pregraph :: "('c \<Rightarrow> 'c list) \<Rightarrow> ('c \<Rightarrow> 'c \<Rightarrow> 'p list) \<Rightarrow> ('p \<Rightarrow> rat)
    \<Rightarrow> ('c list \<times> nat \<times> nat \<times> nat \<rightharpoonup> 'c graph) \<Rightarrow> 'c list \<Rightarrow> nat \<Rightarrow> nat \<Rightarrow> nat \<Rightarrow> bool
    \<Rightarrow> 'c graph \<times> ('c list \<times> nat \<times> nat \<times> nat \<rightharpoonup> 'c graph)" where
  "make_pregraph prefilter pairs_for score artifacts contigs vote_threshold n_frags max_neighbors force =
     (case artifacts (contigs, vote_threshold, n_frags, max_neighbors) of
        Some cached \<Rightarrow>
          if \<not> force then (cached, artifacts)
          else (let g = build prefilter pairs_for score contigs vote_threshold n_frags max_neighbors
                in (g, artifacts((contigs, vote_threshold, n_frags, max_neighbors) \<mapsto> g)))
      | None \<Rightarrow>
          (let g = build prefilter pairs_for score contigs vote_threshold n_frags max_neighbors
           in (g, artifacts((contigs, vote_threshold, n_frags, max_neighbors) \<mapsto> g))))"

text \<open>
  The invariant of section 3 on a graph, and on a table of artifacts: every edge joins
  two different contigs and its vote count lies between the vote threshold and
  \<open>n_frags\<close>.
\<close>

definition graph_ok :: "nat \<Rightarrow> nat \<Rightarrow> 'c graph \<Rightarrow> bool" where
  "graph_ok vote_threshold n_frags g \<longleftrightarrow>
     (\<forall>(u, v, c)\<in>set g. u \<noteq> v \<and> vote_threshold \<le> c \<and> c \<le> n_frags)"

definition artifacts_ok :: "('c list \<times> nat \<times> nat \<times> nat \<rightharpoonup> 'c graph) \<Rightarrow> bool" where
  "artifacts_ok artifacts \<longleftrightarrow>
     (\<forall>contigs vote_threshold n_frags max_neighbors g.
        artifacts (contigs, vote_threshold, n_frags, max_neighbors) = Some g
          \<longrightarrow> graph_ok vote_threshold n_frags g)"

section \<open>Properties of the windowing transform\<close>

lemma length_decimate:
  "0 < s \<Longrightarrow> length (decimate s xs) = (length xs + s - 1) div s"
proof (induction s xs rule: decimate.induct)
  case (1 s)
  then show ?case by simp
next
  case (2 s x xs)
  show ?case
  proof (cases "length xs < s")
    case True
    with 2 show ?thesis by simp
  next
    case False
    then have "length xs + s = (length xs - (s - 1) + s - 1) + s" using 2 by simp
    then have "(length xs + s) div s = Suc ((length xs - (s - 1) + s - 1) div s)"
      using 2 by (metis div_add_self2 less_numeral_extra(3) Suc_eq_plus1)
    with 2 show ?thesis by simp
  qed
qed

lemma ceiling_div_nat:
  assumes s: "0 < s"
  shows "int ((n + s - 1) div s) = \<lceil>(of_nat n :: rat) / of_nat s\<rceil>"
proof -
  define q where "q = (n + s - 1) div s"
  have lo: "q * s \<le> n + s - 1"
    unfolding q_def by simp
  have hi: "n + s - 1 < q * s + s"
    unfolding q_def using s by (metis add.commute dividend_less_div_times mult.commute)
  from hi s have hi': "n \<le> q * s" by simp
  from lo s have "q * s < n + s" by simp
  then have "int (q * s) < int (n + s)" by (simp only: of_nat_less_iff)
  then have lo': "int q * int s - int s < int n" by simp
  have "(of_int (int q) :: rat) - 1 < of_nat n / of_nat s"
  proof -
    have "(of_int (int q * int s - int s) :: rat) < of_int (int n)"
      using lo' by (simp only: of_int_less_iff)
    then have "((of_nat q :: rat) - 1) * of_nat s < of_nat n"
      by (simp add: algebra_simps)
    then show ?thesis using s by (simp add: pos_less_divide_eq)
  qed
  moreover have "(of_nat n :: rat) / of_nat s \<le> of_int (int q)"
  proof -
    have "(of_nat n :: rat) \<le> of_nat (q * s)" using hi' by (simp only: of_nat_le_iff)
    then show ?thesis using s by (simp add: pos_divide_le_eq)
  qed
  ultimately have "\<lceil>(of_nat n :: rat) / of_nat s\<rceil> = int q"
    by (rule ceiling_unique)
  then show ?thesis by (simp add: q_def)
qed

lemma length_correlate_valid:
  "length (correlate_valid a w) = length a - length w + 1"
  by (simp add: correlate_valid_def)

lemma length_ones: "length (ones n :: 'a::one list) = n"
  by (simp add: ones_def)

lemma convolve_valid_long:
  "v \<noteq> [] \<Longrightarrow> length v \<le> length a \<Longrightarrow>
   convolve_valid a v = Inr (correlate_valid a (rev v))"
  by (auto simp: convolve_valid_def)

lemma convolve_valid_short:
  "a \<noteq> [] \<Longrightarrow> length a < length v \<Longrightarrow>
   convolve_valid a v = Inr (correlate_valid v (rev a))"
  by (auto simp: convolve_valid_def)

lemma convolve_valid_empty: "convolve_valid [] v = Inl ValueError"
  by (cases v) (auto simp: convolve_valid_def)

text \<open>What \<open>avg_window\<close> returns on a vector at least as long as the window.\<close>

lemma avg_window_long:
  assumes "0 < window_size" "0 < window_step" "window_size \<le> length x"
  shows "\<exists>y. avg_window x window_size window_step = Inr y \<and>
             length y = (length x - window_size + window_step) div window_step"
proof -
  let ?k = "map (\<lambda>y. y / from_nat window_size) (ones window_size) :: 'a list"
  have k: "?k \<noteq> []" "length ?k \<le> length x"
    using assms by (auto simp: ones_def)
  have "avg_window x window_size window_step
          = Inr (decimate window_step (correlate_valid x (rev ?k)))"
    using assms(2) by (simp add: avg_window_def convolve_valid_long [OF k] slice_step_def)
  moreover have "length (decimate window_step (correlate_valid x (rev ?k)))
          = (length x - window_size + window_step) div window_step"
    using assms by (simp add: length_decimate length_correlate_valid length_ones)
  ultimately show ?thesis by simp
qed

text \<open>On a shorter, non-empty vector numpy swaps the operands of the convolution.\<close>

lemma avg_window_swapped:
  assumes "x \<noteq> []" "length x < window_size" "0 < window_step"
  shows "\<exists>y. avg_window x window_size window_step = Inr y \<and>
             length y = (window_size - length x + window_step) div window_step"
proof -
  let ?k = "map (\<lambda>y. y / from_nat window_size) (ones window_size) :: 'a list"
  have k: "length x < length ?k"
    using assms by (simp add: ones_def)
  have "avg_window x window_size window_step
          = Inr (decimate window_step (correlate_valid ?k (rev x)))"
    using assms(3) by (simp add: avg_window_def convolve_valid_short [OF assms(1) k] slice_step_def)
  moreover have "length (decimate window_step (correlate_valid ?k (rev x)))
          = (window_size - length x + window_step) div window_step"
    using assms by (simp add: length_decimate length_correlate_valid length_ones)
  ultimately show ?thesis by simp
qed

lemma map_rows_all:
  assumes "\<And>r. r \<in> set m \<Longrightarrow> \<exists>y. f r = Inr y \<and> P y"
  shows "\<exists>ys. map_rows f m = Inr ys \<and> length ys = length m \<and> (\<forall>y\<in>set ys. P y)"
  using assms
proof (induction m)
  case Nil
  then show ?case by simp
next
  case (Cons r rs)
  from Cons.prems obtain y where y: "f r = Inr y" "P y" by auto
  from Cons obtain ys where ys: "map_rows f rs = Inr ys" "length ys = length rs" "\<forall>y\<in>set ys. P y"
    by auto
  from y ys show ?case by simp
qed

lemma window_slice_rows:
  assumes "0 < window_size" and "0 < window_step" and "m \<noteq> []"
    and "\<forall>x\<in>set m. length x = L" and "window_size \<le> L"
  shows "\<exists>y. window_slice m window_size window_step = Inr y \<and> length y = length m \<and>
           (\<forall>r\<in>set y. length r = (L - window_size + window_step) div window_step)"
proof -
  have "\<exists>y. avg_window r window_size window_step = Inr y \<and>
          length y = (L - window_size + window_step) div window_step"
    if "r \<in> set m" for r :: "'a list"
  proof -
    from that assms have "window_size \<le> length r" by simp
    from avg_window_long [OF assms(1,2) this] that assms(4) show ?thesis by auto
  qed
  then have "\<exists>ys. map_rows (\<lambda>x. avg_window x window_size window_step) m = Inr ys \<and>
      length ys = length m \<and> (\<forall>y\<in>set ys. length y = (L - window_size + window_step) div window_step)"
    by (rule map_rows_all)
  then show ?thesis
    using assms(3) by (simp add: window_slice_def apply_along_axis_def)
qed

lemma conv_shape_nat:
  assumes "0 < window_step" and "window_size \<le> L"
  shows "conv_shape (int L) window_size window_step
       = Inr (int ((L - window_size + window_step) div window_step))"
proof -
  have "int L - int window_size + 1 = int (L - window_size + 1)"
    using assms(2) by simp
  then have "\<lceil>(of_int (int L - int window_size + 1) :: rat) / of_nat window_step\<rceil>
      = \<lceil>(of_nat (L - window_size + 1) :: rat) / of_nat window_step\<rceil>"
    by (simp only: of_int_of_nat_eq)
  also have "\<dots> = int ((L - window_size + 1 + window_step - 1) div window_step)"
    by (rule ceiling_div_nat [symmetric]) (rule assms(1))
  finally show ?thesis using assms(1) by (simp add: conv_shape_def)
qed

lemma from_nat_of_nat: "from_nat n = (of_nat n :: 'a::semiring_1)"
  by (induction n) (simp_all add: add.commute)





section \<open>The windows of a constant vector\<close>





subsection \<open>Rounding to float64\<close>


























text \<open>
  C1. A coverage slice with at least one row (sample), every row of length \<open>L\<close>, and
  \<open>window_size \<le> L\<close>, for a positive window size and step: the windowing returns
  one row for each sample, every row of \<open>ceil((L - window_size + 1) / window_step)\<close>
  values, the number that \<open>get_coverage\<close> computes as \<open>conv_shape\<close>. The shape
  depends on \<open>L\<close> and the two parameters only.
\<close>

theorem window_slice_shape:
  assumes "0 < window_size" and "0 < window_step" and "m \<noteq> []"
    and "\<forall>x\<in>set m. length x = L" and "window_size \<le> L"
  shows "\<exists>y. window_slice m window_size window_step = Inr y \<and> length y = length m \<and>
           (\<forall>r\<in>set y. int (length r) = \<lceil>(of_int (int L - int window_size + 1) :: rat) / of_nat window_step\<rceil>) \<and>
           conv_shape (int L) window_size window_step
             = Inr \<lceil>(of_int (int L - int window_size + 1) :: rat) / of_nat window_step\<rceil>"
proof -
  let ?c = "\<lceil>(of_int (int L - int window_size + 1) :: rat) / of_nat window_step\<rceil>"
  from assms(2) have c: "conv_shape (int L) window_size window_step = Inr ?c"
    by (simp add: conv_shape_def)
  with conv_shape_nat [OF assms(2,5)]
  have n: "int ((L - window_size + window_step) div window_step) = ?c" by simp
  from window_slice_rows [OF assms] obtain y :: "'a list list"
    where y: "window_slice m window_size window_step = Inr y" "length y = length m"
      "\<forall>r\<in>set y. length r = (L - window_size + window_step) div window_step"
    by blast
  from y(3) n have "\<forall>r\<in>set y. int (length r) = ?c" by simp
  with y(1,2) c show ?thesis by blast
qed

theorem window_slice_shape_witness:
  "window_slice [[1, 2, 3, 4, 5, 6, 7], [2, 2, 2, 2, 2, 2, 2 :: rat]] 3 2 = Inr [[2, 4, 6], [2, 2, 2]] \<and>
   conv_shape 7 3 2 = Inr 3"
proof -
  have "\<forall>x\<in>set [[1, 2, 3, 4, 5, 6, 7], [2, 2, 2, 2, 2, 2, 2 :: rat]]. length x = 7" by simp
  from window_slice_shape [of 3 2 "[[1, 2, 3, 4, 5, 6, 7], [2, 2, 2, 2, 2, 2, 2 :: rat]]" 7, OF _ _ _ this]
  show ?thesis
    by (simp add: window_slice_def apply_along_axis_def avg_window_def convolve_valid_def
        correlate_valid_def ones_def dot_def slice_step_def conv_shape_def from_nat_of_nat
        numeral_3_eq_3)
qed


text \<open>
  C2, as the specification states it, fails: on a non-empty vector shorter than the
  window \<open>np.convolve\<close> swaps its operands and returns
  \<open>window_size - length x + 1\<close> values, of which the slice keeps the first at least.
\<close>

theorem avg_window_short_counterexample:
  "length [1, 2, 3 :: rat] < 5 \<and> avg_window [1, 2, 3 :: rat] 5 1 = Inr [6 / 5, 6 / 5, 6 / 5] \<and>
   avg_window [1, 2, 3 :: rat] 5 1 \<noteq> Inr []"
  by code_simp

text \<open>
  C2, amended. For a vector shorter than the window the result is never empty: an empty
  vector (or a step of 0) raises \<open>ValueError\<close>, and a non-empty vector with a positive
  step gives \<open>ceil((window_size - length x + 1) / window_step)\<close> values, at least one.
\<close>

theorem avg_window_short:
  assumes "length x < window_size"
  shows "avg_window x window_size window_step \<noteq> Inr [] \<and>
     (x = [] \<or> window_step = 0 \<longrightarrow> avg_window x window_size window_step = Inl ValueError) \<and>
     (x \<noteq> [] \<and> 0 < window_step \<longrightarrow>
        (\<exists>y. avg_window x window_size window_step = Inr y \<and> 0 < length y \<and>
           int (length y) = \<lceil>(of_nat (window_size - length x + 1) :: rat) / of_nat window_step\<rceil>))"
proof -
  have e: "avg_window x window_size window_step = Inl ValueError" if "x = [] \<or> window_step = 0"
  proof (cases "x = []")
    case True
    then show ?thesis by (simp add: avg_window_def convolve_valid_empty)
  next
    case False
    with that have s: "window_step = 0" by simp
    have "length x < length (map (\<lambda>y. y / from_nat window_size) (ones window_size) :: 'a list)"
      using assms by (simp add: ones_def)
    from convolve_valid_short [OF False this] s show ?thesis
      by (simp add: avg_window_def slice_step_def)
  qed
  have r: "\<exists>y. avg_window x window_size window_step = Inr y \<and> 0 < length y \<and>
           int (length y) = \<lceil>(of_nat (window_size - length x + 1) :: rat) / of_nat window_step\<rceil>"
    if "x \<noteq> []" "0 < window_step"
  proof -
    from avg_window_swapped [OF that(1) assms that(2)]
    obtain y where y: "avg_window x window_size window_step = Inr y"
      "length y = (window_size - length x + window_step) div window_step" by blast
    have "int ((window_size - length x + 1 + window_step - 1) div window_step)
        = \<lceil>(of_nat (window_size - length x + 1) :: rat) / of_nat window_step\<rceil>"
      by (rule ceiling_div_nat) (rule that(2))
    then have c: "int (length y)
        = \<lceil>(of_nat (window_size - length x + 1) :: rat) / of_nat window_step\<rceil>"
      using y(2) by simp
    have "window_step \<le> window_size - length x + window_step" by simp
    then have "0 < (window_size - length x + window_step) div window_step"
      using that(2) by (simp add: div_greater_zero_iff)
    then have "0 < length y" using y(2) by simp
    with y(1) c show ?thesis by blast
  qed
  from e r show ?thesis by (cases "x = [] \<or> window_step = 0") auto
qed

theorem avg_window_short_witness:
  "length [1, 2, 3 :: rat] < 5 \<and> avg_window [1, 2, 3 :: rat] 5 2 = Inr [6 / 5, 6 / 5] \<and>
   avg_window ([] :: rat list) 5 2 = Inl ValueError"
proof -
  have a: "avg_window [1, 2, 3 :: rat] 5 2 = Inr [6 / 5, 6 / 5]" by code_simp
  have l: "length [1, 2, 3 :: rat] < 5" by simp
  from avg_window_short [OF l, of 2] avg_window_short [of "[] :: rat list" 5 2] a
  show ?thesis by simp
qed




section \<open>Properties of the coverage of a batch\<close>

lemma frag_eqI:
  "sp f = sp g \<Longrightarrow> frag_start f = frag_start g \<Longrightarrow> frag_end f = frag_end g \<Longrightarrow> f = g"
  by (cases f; cases g) (simp add: sp_def frag_start_def frag_end_def)

lemma uniform_same_key:
  assumes "uniform_length frags" "f \<in> set frags" "g \<in> set frags"
    and "sp f = sp g" "frag_start f = frag_start g"
  shows "f = g"
proof -
  from assms(1-3) have "int (frag_end f) - int (frag_start f) = int (frag_end g) - int (frag_start g)"
    unfolding uniform_length_def by blast
  with assms(5) have "frag_end f = frag_end g" by simp
  with assms(4,5) show ?thesis by (rule frag_eqI)
qed

lemma seen_ok_empty: "seen_ok compute frags Map.empty"
  by (simp add: seen_ok_def)

lemma seen_ok_update:
  assumes "uniform_length frags" "seen_ok compute frags seen" "f \<in> set frags" "compute f = Inr c"
  shows "seen_ok compute frags (seen((sp f, frag_start f) \<mapsto> c))"
  unfolding seen_ok_def
proof (intro ballI allI impI)
  fix g c'
  assume g: "g \<in> set frags"
    and s: "(seen((sp f, frag_start f) \<mapsto> c)) (sp g, frag_start g) = Some c'"
  show "compute g = Inr c'"
  proof (cases "sp g = sp f \<and> frag_start g = frag_start f")
    case True
    with uniform_same_key [OF assms(1) g assms(3)] have "g = f" by simp
    with s assms(4) show ?thesis by simp
  next
    case False
    with s have "seen (sp g, frag_start g) = Some c'" by (auto split: if_splits)
    with assms(2) g show ?thesis unfolding seen_ok_def by blast
  qed
qed

lemma cov_loop_ref_loop:
  assumes "uniform_length frags" "\<forall>k\<in>set ks. k < length frags" "seen_ok compute frags seen"
  shows "cov_loop compute store frags ks seen cf = ref_loop compute store frags ks cf"
  using assms(2,3)
proof (induction ks arbitrary: seen cf)
  case Nil
  show ?case by simp
next
  case (Cons k ks)
  obtain species start stop where f: "frags ! k = (species, start, stop)"
    by (cases "frags ! k") auto
  from Cons.prems(1) have k: "frags ! k \<in> set frags" by simp
  have key: "sp (frags ! k) = species" "frag_start (frags ! k) = start"
    by (simp_all add: f sp_def frag_start_def)
  from Cons.prems(1) have ks: "\<forall>k\<in>set ks. k < length frags" by simp
  show ?case
  proof (cases "seen (species, start)")
    case None
    show ?thesis
    proof (cases "compute (species, start, stop)")
      case (Inl e)
      with None f show ?thesis by simp
    next
      case (Inr c)
      have "seen_ok compute frags (seen((species, start) \<mapsto> c))"
        using seen_ok_update [OF assms(1) Cons.prems(2) k] Inr f key by simp
      then have ih: "cov_loop compute store frags ks (seen((species, start) \<mapsto> c)) cf'
          = ref_loop compute store frags ks cf'" for cf'
        by (rule Cons.IH [OF ks])
      show ?thesis
      proof (cases "store c")
        case (Inl e)
        with None Inr f show ?thesis by simp
      next
        case block: (Inr b)
        with None Inr f ih [of "cf[k := b]"] show ?thesis by simp
      qed
    qed
  next
    case (Some c)
    with Cons.prems(2) k key have c: "compute (frags ! k) = Inr c"
      unfolding seen_ok_def by metis
    have ih: "cov_loop compute store frags ks seen cf' = ref_loop compute store frags ks cf'" for cf'
      by (rule Cons.IH [OF ks Cons.prems(2)])
    show ?thesis
    proof (cases "store c")
      case (Inl e)
      with Some c f show ?thesis by simp
    next
      case block: (Inr b)
      with Some c f ih [of "cf[k := b]"] show ?thesis by simp
    qed
  qed
qed

lemma cov_loop_fresh:
  assumes "uniform_length frags" "\<not> (\<exists>k\<in>set ks. length frags \<le> k)"
  shows "cov_loop compute store frags ks Map.empty cf = ref_loop compute store frags ks cf"
  using assms by (intro cov_loop_ref_loop seen_ok_empty) auto

text \<open>
  C3. For a batch whose fragments all have the same length \<open>end - start\<close>,
  \<open>get_coverage\<close> with its memo table keyed by \<open>(contig, start)\<close> returns what the
  reference without a table returns, results and exceptions alike, whatever order
  \<open>argsort\<close> gives. The table is local to a call: \<open>get_coverage\<close> starts the loop
  from the empty table and returns the two arrays only, so a later batch is computed
  from nothing an earlier one memoized.
\<close>

theorem get_coverage_memo_refines:
  assumes "uniform_length (concat_pairs pairs)"
  shows "get_coverage argsort cast pairs coverage_h5 window_size window_step
       = get_coverage_ref argsort cast pairs coverage_h5 window_size window_step"
proof (cases "\<exists>k\<in>set (argsort (map sp (concat_pairs pairs))). length (concat_pairs pairs) \<le> k")
  case True
  then have out: "(\<exists>k\<in>set (argsort (map sp (concat_pairs pairs))). length (concat_pairs pairs) \<le> k) = True"
    by simp
  show ?thesis
    unfolding get_coverage_def get_coverage_ref_def Let_def out if_True ..
next
  case False
  note eq = cov_loop_fresh [OF assms False]
  show ?thesis
    unfolding get_coverage_def get_coverage_ref_def Let_def eq ..
qed

theorem get_coverage_memo_refines_witness:
  "uniform_length (concat_pairs [((2, 0, 4), (1, 2, 6)), ((1, 2, 6), (2, 4, 8)), ((2, 0, 4), (2::nat, 0, 4))]) \<and>
   get_coverage argsort_stable (\<lambda>x. x) [((2, 0, 4), (1, 2, 6)), ((1, 2, 6), (2, 4, 8)), ((2, 0, 4), (2::nat, 0, 4))]
     [1 \<mapsto> [[1, 2, 3, 4, 5, 6, 7, 8], [0, 0, 2, 2, 4, 4, 6, 6]],
      2 \<mapsto> [[5, 5, 5, 5, 5, 5, 5, 5], [1, 3, 1, 3, 1, 3, 1, 3 :: rat]]] 2 2
   = Inr ([[[5, 5], [2, 2]], [[7 / 2, 11 / 2], [2, 4]], [[5, 5], [2, 2]]],
          [[[7 / 2, 11 / 2], [2, 4]], [[5, 5], [2, 2]], [[5, 5], [2, 2 :: rat]]])"
  (is "uniform_length (concat_pairs ?P) \<and> get_coverage _ ?c _ ?h _ _ = ?r")
proof -
  have u: "uniform_length (concat_pairs ?P)"
    by (simp add: uniform_length_def concat_pairs_def frag_end_def frag_start_def)
  have r: "get_coverage_ref argsort_stable ?c ?P ?h 2 2 = ?r"
    by code_simp
  have "get_coverage argsort_stable ?c ?P ?h 2 2 = get_coverage_ref argsort_stable ?c ?P ?h 2 2"
    by (rule get_coverage_memo_refines [OF u])
  with u r show ?thesis by (simp only: simp_thms)
qed

text \<open>
  The hypothesis is needed: the key leaves \<open>end\<close> out, so with two lengths in one
  batch the table hands the windows of \<open>(2, 0, 4)\<close> to the fragment \<open>(2, 0, 5)\<close>,
  where recomputing raises on the shape.
\<close>

lemma memo_needs_uniform_length:
  "get_coverage argsort_stable (\<lambda>x. x) [((2, 0, 4), (1, 2, 6)), ((2, 0, 5), (2::nat, 4, 8))]
     [1 \<mapsto> [[1, 2, 3, 4, 5, 6, 7, 8], [0, 0, 2, 2, 4, 4, 6, 6]],
      2 \<mapsto> [[5, 5, 5, 5, 5, 5, 5, 5], [1, 3, 1, 3, 1, 3, 1, 3 :: rat]]] 2 1
   = Inr ([[[5, 5, 5], [2, 2, 2]], [[5, 5, 5], [2, 2, 2]]],
          [[[7 / 2, 9 / 2, 11 / 2], [2, 3, 4]], [[5, 5, 5], [2, 2, 2 :: rat]]]) \<and>
   get_coverage_ref argsort_stable (\<lambda>x. x) [((2, 0, 4), (1, 2, 6)), ((2, 0, 5), (2::nat, 4, 8))]
     [1 \<mapsto> [[1, 2, 3, 4, 5, 6, 7, 8], [0, 0, 2, 2, 4, 4, 6, 6]],
      2 \<mapsto> [[5, 5, 5, 5, 5, 5, 5, 5], [1, 3, 1, 3, 1, 3, 1, 3 :: rat]]] 2 1
   = (Inl ValueError :: py_error + rat list list list \<times> rat list list list)"
  by code_simp

lemma load_coverage_all:
  "\<forall>c\<in>set cs. h5 c \<noteq> None \<Longrightarrow> load_coverage h5 cs = Inr (map (\<lambda>c. (c, the (h5 c))) cs)"
  by (induction cs) auto

lemma set_np_unique: "set (np_unique xs) = set xs"
  by (simp add: np_unique_def)

lemma frag_coverage_loaded:
  assumes "sp f \<in> set cs" "h5 (sp f) \<noteq> None"
  shows "frag_coverage (map (\<lambda>c. (c, the (h5 c))) cs) window_size window_step f
       = windowed_coverage h5 window_size window_step f"
proof -
  have "map_of (map (\<lambda>c. (c, the (h5 c))) cs) (sp f) = Some (the (h5 (sp f)))"
    using assms(1) by (simp add: map_of_map_restrict)
  with assms(2) show ?thesis
    by (auto simp: frag_coverage_def windowed_coverage_def)
qed

lemma store_block_exact:
  assumes "length w = n_samples" "\<forall>row\<in>set w. length row = n_cols"
  shows "store_block cast n_samples n_cols w = Inr (map (map cast) w)"
proof -
  define g where "g r = map (\<lambda>j. cast (if length r = 1 then r ! 0 else r ! j)) [0 ..< n_cols]"
    for r :: "'a list"
  have row: "g r = map cast r" if "length r = n_cols" for r
    unfolding g_def using that by (intro nth_equalityI) auto
  have sel: "(if length w = 1 then w ! 0 else w ! i) = w ! i" if "i < length w" for i
    using that by auto
  have "map (\<lambda>i. g (if length w = 1 then w ! 0 else w ! i)) [0 ..< n_samples] = map (map cast) w"
  proof (rule nth_equalityI)
    show "length (map (\<lambda>i. g (if length w = 1 then w ! 0 else w ! i)) [0 ..< n_samples])
        = length (map (map cast) w)"
      using assms(1) by simp
  next
    fix i
    assume "i < length (map (\<lambda>i. g (if length w = 1 then w ! 0 else w ! i)) [0 ..< n_samples])"
    then have i: "i < length w" using assms(1) by simp
    then have "length (w ! i) = n_cols" using assms(2) by simp
    then have "g (w ! i) = map cast (w ! i)" by (rule row)
    then show "map (\<lambda>i. g (if length w = 1 then w ! 0 else w ! i)) [0 ..< n_samples] ! i
        = map (map cast) w ! i"
      using i assms(1) by auto
  qed
  with assms show ?thesis by (simp add: store_block_def g_def Let_def)
qed

lemma ref_loop_blocks:
  assumes "\<And>k. k \<in> set ks \<Longrightarrow> k < length cf"
    and "\<And>k. k \<in> set ks \<Longrightarrow> \<exists>w. compute (frags ! k) = Inr w \<and> store w = Inr (blk k)"
  shows "\<exists>cf'. ref_loop compute store frags ks cf = Inr cf' \<and> length cf' = length cf \<and>
           (\<forall>k\<in>set ks. cf' ! k = blk k) \<and> (\<forall>j. j \<notin> set ks \<longrightarrow> cf' ! j = cf ! j)"
  using assms
proof (induction ks arbitrary: cf)
  case Nil
  show ?case by simp
next
  case (Cons k ks)
  from Cons.prems(2) [of k] obtain w where w: "compute (frags ! k) = Inr w" "store w = Inr (blk k)"
    by auto
  have k: "k < length cf" using Cons.prems(1) by simp
  have "\<exists>cf'. ref_loop compute store frags ks (cf[k := blk k]) = Inr cf' \<and>
          length cf' = length (cf[k := blk k]) \<and>
          (\<forall>k\<in>set ks. cf' ! k = blk k) \<and> (\<forall>j. j \<notin> set ks \<longrightarrow> cf' ! j = (cf[k := blk k]) ! j)"
    using Cons.prems by (intro Cons.IH) auto
  then obtain cf' where cf': "ref_loop compute store frags ks (cf[k := blk k]) = Inr cf'"
    "length cf' = length cf" "\<forall>k\<in>set ks. cf' ! k = blk k"
    "\<forall>j. j \<notin> set ks \<longrightarrow> cf' ! j = (cf[k := blk k]) ! j"
    by auto
  have "cf' ! k = blk k"
  proof (cases "k \<in> set ks")
    case True
    with cf'(3) show ?thesis by simp
  next
    case False
    with cf'(4) k show ?thesis by simp
  qed
  moreover have "\<forall>j. j \<notin> set (k # ks) \<longrightarrow> cf' ! j = cf ! j"
    using cf'(4) by auto
  ultimately show ?case using w cf'(1,2,3) by simp
qed

lemma length_slice_cols_row:
  assumes "r \<in> set (slice_cols m start (start + L))" "\<forall>row\<in>set m. start + L \<le> length row"
  shows "length r = L"
  using assms by (auto simp: slice_cols_def)

lemma uniform_lengthI:
  assumes "\<forall>f\<in>set frags. frag_end f = frag_start f + L"
  shows "uniform_length frags"
  using assms by (simp add: uniform_length_def)

lemma windowed_coverage_shape:
  assumes "cov (sp f) = Some m" "length m = n_samples" "0 < n_samples"
    and "\<forall>row\<in>set m. frag_end f \<le> length row" "frag_end f = frag_start f + L"
    and "0 < window_size" "window_size \<le> L" "0 < window_step"
  shows "\<exists>w. windowed_coverage cov window_size window_step f = Inr w \<and>
           length w = n_samples \<and>
           (\<forall>r\<in>set w. length r = (L - window_size + window_step) div window_step)"
proof -
  let ?s = "slice_cols m (frag_start f) (frag_end f)"
  have ne: "?s \<noteq> []" using assms(2,3) by (auto simp: slice_cols_def)
  have len: "\<forall>x\<in>set ?s. length x = L"
    using assms(4,5) by (auto simp: slice_cols_def)
  from window_slice_rows [OF assms(6) assms(8) ne len assms(7)]
  obtain y where "window_slice ?s window_size window_step = Inr y" "length y = length ?s"
    "\<forall>r\<in>set y. length r = (L - window_size + window_step) div window_step" by blast
  with assms(1,2) show ?thesis
    by (simp add: windowed_coverage_def slice_cols_def)
qed

text \<open>
  C5, as the claim states it, fails on batches of uniform fragment length that are not
  well-formed. Here fragment B leaves its contig of length 8: its slice has 2 columns
  and its windowed coverage 1 column, which the assignment at line 83 broadcasts to the
  3 columns of \<open>conv_shape\<close>, so the block returned is not the windowed coverage of the
  fragment. A contig with another number of samples and a fragment shorter than the
  window are broadcast or cut the same way.
\<close>

theorem get_coverage_aligned_counterexample:
  "uniform_length (concat_pairs [((2, 0, 4), (1::nat, 6, 10))]) \<and>
   get_coverage argsort_stable (\<lambda>x. x) [((2, 0, 4), (1::nat, 6, 10))]
     [1 \<mapsto> [[1, 2, 3, 4, 5, 6, 7, 8], [0, 0, 2, 2, 4, 4, 6, 6]],
      2 \<mapsto> [[5, 5, 5, 5, 5, 5, 5, 5], [1, 3, 1, 3, 1, 3, 1, 3 :: rat]]] 2 1
     = Inr ([[[5, 5, 5], [2, 2, 2]]], [[[15 / 2, 15 / 2, 15 / 2], [6, 6, 6 :: rat]]]) \<and>
   windowed_coverage
     [1 \<mapsto> [[1, 2, 3, 4, 5, 6, 7, 8], [0, 0, 2, 2, 4, 4, 6, 6]],
      2 \<mapsto> [[5, 5, 5, 5, 5, 5, 5, 5], [1, 3, 1, 3, 1, 3, 1, 3 :: rat]]] 2 1
     (snd ([((2, 0, 4), (1::nat, 6, 10))] ! 0))
     = Inr [[15 / 2], [6]]"
  by code_simp

text \<open>
  C5, amended. A well-formed batch: at least one pair, every fragment of length \<open>L\<close>
  inside its contig, every contig in the coverage file with the same positive number of
  samples, \<open>1 \<le> window_size \<le> L\<close> and \<open>1 \<le> window_step\<close>. Whatever order \<open>argsort\<close>
  gives the indices \<open>0 ..< 2 * length pairs\<close> in, \<open>get_coverage\<close> returns two arrays
  of \<open>length pairs\<close> blocks, and block \<open>i\<close> of the first (second) is the windowed
  coverage of fragment A (B) of pair \<open>i\<close>, cast to the array's element type.
\<close>

theorem get_coverage_aligned:
  fixes pairs :: "('c::linorder frag \<times> 'c frag) list"
    and cast :: "'a::{zero,one,plus,times,inverse} \<Rightarrow> 'b::zero"
  assumes idx: "set (argsort (map sp (concat_pairs pairs))) = {0 ..< 2 * length pairs}"
    and ne: "pairs \<noteq> []"
    and wf: "\<forall>f\<in>set (concat_pairs pairs). \<exists>m. cov (sp f) = Some m \<and> length m = n_samples \<and>
               (\<forall>row\<in>set m. frag_end f \<le> length row) \<and> frag_end f = frag_start f + L"
    and pos: "0 < n_samples" "0 < window_size" "window_size \<le> L" "0 < window_step"
  shows "\<exists>A B. get_coverage argsort cast pairs cov window_size window_step = Inr (A, B) \<and>
           length A = length pairs \<and> length B = length pairs \<and>
           (\<forall>i<length pairs.
              (\<exists>wa. windowed_coverage cov window_size window_step (fst (pairs ! i)) = Inr wa \<and>
                    A ! i = map (map cast) wa) \<and>
              (\<exists>wb. windowed_coverage cov window_size window_step (snd (pairs ! i)) = Inr wb \<and>
                    B ! i = map (map cast) wb))"
proof -
  define frags where "frags = concat_pairs pairs"
  define n where "n = length pairs"
  define nc where "nc = (L - window_size + window_step) div window_step"
  define cd where "cd = map (\<lambda>c. (c, the (cov c))) (np_unique (map sp frags))"
  define blk where "blk k = map (map cast)
      (projr (windowed_coverage cov window_size window_step (frags ! k)))" for k
  have len_frags: "length frags = 2 * n"
    by (simp add: frags_def n_def concat_pairs_def)
  have wf': "\<exists>m. cov (sp f) = Some m \<and> length m = n_samples \<and>
               (\<forall>row\<in>set m. frag_end f \<le> length row) \<and> frag_end f = frag_start f + L"
    if "f \<in> set frags" for f
    using wf that unfolding frags_def by blast
  have win: "\<exists>w. windowed_coverage cov window_size window_step f = Inr w \<and>
           length w = n_samples \<and> (\<forall>r\<in>set w. length r = nc)"
    if "f \<in> set frags" for f
  proof -
    from wf' [OF that] obtain m where "cov (sp f) = Some m" "length m = n_samples"
      "\<forall>row\<in>set m. frag_end f \<le> length row" "frag_end f = frag_start f + L" by blast
    from windowed_coverage_shape [where cov = cov and f = f, OF this(1,2) pos(1) this(3,4) pos(2,3,4)]
    show ?thesis unfolding nc_def .
  qed
  have present: "\<forall>c\<in>set (np_unique (map sp frags)). cov c \<noteq> None"
  proof
    fix c assume "c \<in> set (np_unique (map sp frags))"
    then have "c \<in> sp ` set frags" by (simp add: set_np_unique)
    then obtain f where f: "f \<in> set frags" "c = sp f" by blast
    from wf' [OF f(1)] f(2) show "cov c \<noteq> None" by blast
  qed
  have load: "load_coverage cov (np_unique (map sp frags)) = Inr cd"
    unfolding cd_def by (rule load_coverage_all [OF present])
  from ne obtain a0 b0 ps where pairs: "pairs = (a0, b0) # ps"
    by (cases pairs) auto
  have a0: "a0 \<in> set frags" by (simp add: frags_def pairs concat_pairs_def)
  then have "np_unique (map sp frags) \<noteq> []"
    using set_np_unique [of "map sp frags"] by force
  then obtain c0 cs where cs: "np_unique (map sp frags) = c0 # cs"
    by (cases "np_unique (map sp frags)") auto
  then have "c0 \<in> set (map sp frags)"
    using set_np_unique [of "map sp frags"] by (metis list.set_intros(1))
  then obtain f0 where "f0 \<in> set frags" "sp f0 = c0" by auto
  with wf' [of f0] have m0: "length (the (cov c0)) = n_samples" by auto
  define m0 where "m0 = the (cov c0)"
  define rest where "rest = map (\<lambda>c. (c, the (cov c))) cs"
  have cd_cons: "cd = (c0, m0) # rest"
    by (simp add: cd_def cs m0_def rest_def)
  have len_m0: "length m0 = n_samples" using m0 by (simp add: m0_def)
  from wf' [OF a0] have frag_len: "int (frag_end a0) - int (frag_start a0) = int L" by auto
  have shape: "conv_shape (int L) window_size window_step = Inr (int nc)"
    unfolding nc_def by (rule conv_shape_nat [OF pos(4,3)])
  have inrange: "\<not> (\<exists>k\<in>set (argsort (map sp frags)). length frags \<le> k)"
    using idx len_frags by (auto simp: frags_def n_def)
  have uni: "uniform_length frags"
    using wf' by (intro uniform_lengthI [of _ L]) auto
  have step: "\<exists>w. frag_coverage cd window_size window_step (frags ! k) = Inr w \<and>
      store_block cast n_samples nc w = Inr (blk k)"
    if "k \<in> set (argsort (map sp frags))" for k
  proof -
    from that idx len_frags have "k < length frags" by (simp add: frags_def n_def)
    then have f: "frags ! k \<in> set frags" by simp
    from win [OF f] obtain w where w: "windowed_coverage cov window_size window_step (frags ! k) = Inr w"
      "length w = n_samples" "\<forall>r\<in>set w. length r = nc" by blast
    have "sp (frags ! k) \<in> set (np_unique (map sp frags))"
      using f by (simp add: set_np_unique)
    moreover from wf' [OF f] have "cov (sp (frags ! k)) \<noteq> None" by auto
    ultimately have "frag_coverage cd window_size window_step (frags ! k) = Inr w"
      unfolding cd_def using w(1) by (simp add: frag_coverage_loaded)
    moreover have "store_block cast n_samples nc w = Inr (blk k)"
      using store_block_exact [OF w(2,3)] w(1) by (simp add: blk_def)
    ultimately show ?thesis by blast
  qed
  let ?zeros = "replicate (2 * n) (replicate n_samples (replicate nc (0::'b)))"
  have "\<exists>cf'. ref_loop (frag_coverage cd window_size window_step) (store_block cast n_samples nc)
            frags (argsort (map sp frags)) ?zeros = Inr cf' \<and> length cf' = length ?zeros \<and>
           (\<forall>k\<in>set (argsort (map sp frags)). cf' ! k = blk k) \<and>
           (\<forall>j. j \<notin> set (argsort (map sp frags)) \<longrightarrow> cf' ! j = ?zeros ! j)"
  proof (rule ref_loop_blocks)
    fix k assume "k \<in> set (argsort (map sp frags))"
    with idx show "k < length ?zeros" by (simp add: frags_def n_def)
  next
    fix k assume "k \<in> set (argsort (map sp frags))"
    then show "\<exists>w. frag_coverage cd window_size window_step (frags ! k) = Inr w \<and>
      store_block cast n_samples nc w = Inr (blk k)" by (rule step)
  qed
  then obtain cf' where cf': "ref_loop (frag_coverage cd window_size window_step)
        (store_block cast n_samples nc) frags (argsort (map sp frags)) ?zeros = Inr cf'"
      "length cf' = 2 * n" "\<forall>k\<in>set (argsort (map sp frags)). cf' ! k = blk k"
    by auto
  have loop: "cov_loop (frag_coverage cd window_size window_step) (store_block cast n_samples nc)
        frags (argsort (map sp frags)) Map.empty ?zeros = Inr cf'"
    by (simp only: cov_loop_fresh [OF uni inrange] cf'(1))
  have pc: "(case pairs of [] \<Rightarrow> x | (a, b) # r \<Rightarrow> g a b r) = g a0 b0 ps"
    for x :: "py_error + 'b list list list \<times> 'b list list list" and g
    by (simp add: pairs)
  have res: "get_coverage argsort cast pairs cov window_size window_step
      = Inr (take n cf', drop n cf')"
  proof -
    have "get_coverage argsort cast pairs cov window_size window_step
      = (case cov_loop (frag_coverage cd window_size window_step) (store_block cast n_samples nc)
              frags (argsort (map sp frags)) Map.empty ?zeros of
           Inl e \<Rightarrow> Inl e
         | Inr coverage_feature \<Rightarrow> Inr (take n coverage_feature, drop n coverage_feature))"
      unfolding get_coverage_def Let_def frags_def [symmetric] n_def [symmetric]
      using inrange by (simp add: load cd_cons pc frag_len shape len_m0)
    then show ?thesis by (simp add: loop)
  qed
  have blk_at: "cf' ! k = blk k" if "k < 2 * n" for k
    using cf'(3) idx that by (simp add: frags_def n_def)
  have A: "\<exists>wa. windowed_coverage cov window_size window_step (fst (pairs ! i)) = Inr wa \<and>
                    take n cf' ! i = map (map cast) wa" if "i < n" for i
  proof -
    have fi: "frags ! i = fst (pairs ! i)"
      using that by (simp add: frags_def concat_pairs_def n_def nth_append)
    then have "frags ! i \<in> set frags" using that len_frags by (metis nth_mem less_le_trans le_add1 mult_2)
    from win [OF this] obtain w where "windowed_coverage cov window_size window_step (frags ! i) = Inr w"
      by blast
    moreover have "take n cf' ! i = blk i" using that blk_at [of i] by simp
    ultimately show ?thesis by (simp add: blk_def fi)
  qed
  have B: "\<exists>wb. windowed_coverage cov window_size window_step (snd (pairs ! i)) = Inr wb \<and>
                    drop n cf' ! i = map (map cast) wb" if "i < n" for i
  proof -
    have fi: "frags ! (n + i) = snd (pairs ! i)"
      using that by (simp add: frags_def concat_pairs_def n_def nth_append)
    have "n + i < length frags" using that len_frags by simp
    then have "frags ! (n + i) \<in> set frags" by (rule nth_mem)
    from win [OF this] obtain w where "windowed_coverage cov window_size window_step (frags ! (n + i)) = Inr w"
      by blast
    moreover have "drop n cf' ! i = blk (n + i)" using that blk_at [of "n + i"] cf'(2) by simp
    ultimately show ?thesis by (simp add: blk_def fi)
  qed
  have "length (take n cf') = length pairs" "length (drop n cf') = length pairs"
    using cf'(2) by (simp_all add: n_def)
  with res A B show ?thesis unfolding n_def by blast
qed

theorem get_coverage_aligned_witness:
  "\<exists>A B. get_coverage argsort_stable (\<lambda>x. x)
            [((2, 0, 4), (1, 2, 6)), ((1, 2, 6), (2, 4, 8)), ((2, 0, 4), (2::nat, 0, 4))]
            [1 \<mapsto> [[1, 2, 3, 4, 5, 6, 7, 8], [0, 0, 2, 2, 4, 4, 6, 6]],
             2 \<mapsto> [[5, 5, 5, 5, 5, 5, 5, 5], [1, 3, 1, 3, 1, 3, 1, 3 :: rat]]] 2 2 = Inr (A, B) \<and>
          A ! 1 = [[7 / 2, 11 / 2], [2, 4]] \<and> B ! 1 = [[5, 5], [2, 2]]"
  (is "\<exists>A B. get_coverage _ ?c ?P ?h _ _ = _ \<and> _")
proof -
  have idx: "set (argsort_stable (map sp (concat_pairs ?P))) = {0 ..< 2 * length ?P}"
    by code_simp
  have wf: "\<forall>f\<in>set (concat_pairs ?P). \<exists>m. ?h (sp f) = Some m \<and> length m = 2 \<and>
               (\<forall>row\<in>set m. frag_end f \<le> length row) \<and> frag_end f = frag_start f + 4"
    by (simp add: concat_pairs_def sp_def frag_start_def frag_end_def)
  have wa: "windowed_coverage ?h 2 2 (fst (?P ! 1)) = Inr [[7 / 2, 11 / 2], [2, 4]]"
    by code_simp
  have wb: "windowed_coverage ?h 2 2 (snd (?P ! 1)) = Inr [[5, 5], [2, 2]]"
    by code_simp
  from get_coverage_aligned [where argsort = argsort_stable and cast = ?c and pairs = ?P and cov = ?h
      and n_samples = 2 and L = 4 and window_size = 2 and window_step = 2, OF idx _ wf]
  obtain A B where r: "get_coverage argsort_stable ?c ?P ?h 2 2 = Inr (A, B)"
    and al: "\<forall>i<length ?P.
       (\<exists>wa. windowed_coverage ?h 2 2 (fst (?P ! i)) = Inr wa \<and> A ! i = map (map ?c) wa) \<and>
       (\<exists>wb. windowed_coverage ?h 2 2 (snd (?P ! i)) = Inr wb \<and> B ! i = map (map ?c) wb)"
    by auto
  have "1 < length ?P" by simp
  from al [rule_format, OF this] have "(\<exists>wa. windowed_coverage ?h 2 2 (fst (?P ! 1)) = Inr wa \<and> A ! 1 = map (map ?c) wa) \<and>
       (\<exists>wb. windowed_coverage ?h 2 2 (snd (?P ! 1)) = Inr wb \<and> B ! 1 = map (map ?c) wb)" .
  with wa wb have "A ! 1 = [[7 / 2, 11 / 2], [2, 4]] \<and> B ! 1 = [[5, 5], [2, 2]]"
    by (simp add: list.map_ident)
  with r show ?thesis by blast
qed

section \<open>Properties of the train and test split\<close>

lemma py_int_ge_floor: "\<lfloor>x\<rfloor> \<le> py_int x"
  by (simp add: py_int_def floor_le_ceiling)

lemma n_ctg_for_test_lower:
  assumes "\<forall>x y. x \<le> y \<longrightarrow> rnd x \<le> rnd y" "\<forall>k::int. rnd (of_int k) = of_int k"
  shows "max 2 \<lfloor>test_ratio * of_nat n_ctg\<rfloor> \<le> n_ctg_for_test rnd test_ratio n_ctg"
proof -
  let ?p = "test_ratio * of_nat n_ctg"
  have "of_int \<lfloor>?p\<rfloor> \<le> ?p" by simp
  with assms(1) have "rnd (of_int \<lfloor>?p\<rfloor>) \<le> rnd ?p" by blast
  with assms(2) have "of_int \<lfloor>?p\<rfloor> \<le> rnd ?p" by simp
  then have "\<lfloor>?p\<rfloor> \<le> \<lfloor>rnd ?p\<rfloor>" by (simp add: le_floor_iff)
  also have "\<dots> \<le> py_int (rnd ?p)" by (rule py_int_ge_floor)
  finally show ?thesis by (auto simp: n_ctg_for_test_def)
qed

text \<open>
  C10. For an assembly of \<open>n_ctg > 0\<close> contigs the split returns: the test indices
  lie in \<open>range(n_ctg)\<close>, the train indices are exactly the indices of the range not
  drawn for test, so the two index sets are disjoint, and the number of test draws
  (repeats included) is \<open>max(2, int(test_ratio * n_ctg))\<close>, at least
  \<open>max(2, floor(test_ratio * n_ctg))\<close>. The float product is any rounding \<open>rnd\<close> of
  the exact one that is monotone and exact on integers. An empty assembly makes
  \<open>np.random.choice\<close> raise \<open>ValueError\<close>.
\<close>

theorem assembly_idx_disjoint:
  assumes "\<forall>x y. x \<le> y \<longrightarrow> rnd x \<le> rnd y" and "\<forall>k::int. rnd (of_int k) = of_int k"
  shows "(n_ctg = 0 \<longrightarrow> assembly_idx rnd rng test_ratio n_ctg = Inl ValueError) \<and>
     (0 < n_ctg \<longrightarrow>
        (\<exists>test train. assembly_idx rnd rng test_ratio n_ctg = Inr (test, train) \<and>
           set test \<subseteq> {0 ..< n_ctg} \<and>
           set train = {0 ..< n_ctg} - set test \<and>
           set train \<inter> set test = {} \<and>
           int (length test) = n_ctg_for_test rnd test_ratio n_ctg \<and>
           max 2 \<lfloor>test_ratio * of_nat n_ctg\<rfloor> \<le> int (length test)))"
proof -
  have two: "2 \<le> n_ctg_for_test rnd test_ratio n_ctg"
    by (simp add: n_ctg_for_test_def)
  have lower: "max 2 \<lfloor>test_ratio * of_nat n_ctg\<rfloor> \<le> n_ctg_for_test rnd test_ratio n_ctg"
    by (rule n_ctg_for_test_lower [OF assms])
  show ?thesis
  proof (intro conjI impI)
    assume "n_ctg = 0"
    with two show "assembly_idx rnd rng test_ratio n_ctg = Inl ValueError"
      by (simp add: assembly_idx_def np_random_choice_def)
  next
    assume n: "0 < n_ctg"
    let ?test = "map (\<lambda>i. rng i mod n_ctg) [0 ..< nat (n_ctg_for_test rnd test_ratio n_ctg)]"
    have r: "assembly_idx rnd rng test_ratio n_ctg = Inr (?test, setdiff1d_range n_ctg ?test)"
      using n by (simp add: assembly_idx_def np_random_choice_def)
    have "set ?test \<subseteq> {0 ..< n_ctg}" using n by auto
    moreover have "set (setdiff1d_range n_ctg ?test) = {0 ..< n_ctg} - set ?test"
      by (auto simp: setdiff1d_range_def)
    moreover have "set (setdiff1d_range n_ctg ?test) \<inter> set ?test = {}"
      by (auto simp: setdiff1d_range_def)
    moreover have "int (length ?test) = n_ctg_for_test rnd test_ratio n_ctg"
      using two by simp
    ultimately show "\<exists>test train. assembly_idx rnd rng test_ratio n_ctg = Inr (test, train) \<and>
           set test \<subseteq> {0 ..< n_ctg} \<and>
           set train = {0 ..< n_ctg} - set test \<and>
           set train \<inter> set test = {} \<and>
           int (length test) = n_ctg_for_test rnd test_ratio n_ctg \<and>
           max 2 \<lfloor>test_ratio * of_nat n_ctg\<rfloor> \<le> int (length test)"
      using r lower by (intro exI [of _ ?test] exI [of _ "setdiff1d_range n_ctg ?test"]) simp
  qed
qed


theorem assembly_idx_disjoint_witness:
  "assembly_idx (\<lambda>x. x) (\<lambda>i. 3 * i + 7) (3 / 10) 10 = Inr ([7, 0, 3], [1, 2, 4, 5, 6, 8, 9]) \<and>
   assembly_idx (\<lambda>x. x) (\<lambda>i. 3 * i + 7) (3 / 10) 0 = Inl ValueError"
proof -
  have "assembly_idx (\<lambda>x. x) (\<lambda>i. 3 * i + 7) (3 / 10) 10 = Inr ([7, 0, 3], [1, 2, 4, 5, 6, 8, 9])"
    by code_simp
  with assembly_idx_disjoint [of "\<lambda>x. x" 0 "\<lambda>i. 3 * i + 7" "3 / 10"]
    assembly_idx_disjoint [of "\<lambda>x. x" 10 "\<lambda>i. 3 * i + 7" "3 / 10"]
  show ?thesis by simp
qed

section \<open>Properties of the pair sampler\<close>

lemma length_draw: "k \<le> length xs \<Longrightarrow> length (draw rng k xs) = k"
proof (induction k arbitrary: xs)
  case 0
  show ?case by simp
next
  case (Suc k)
  then have ne: "xs \<noteq> []" by auto
  let ?i = "rng k mod length xs"
  have i: "?i < length xs" using ne by simp
  then have "length (take ?i xs @ drop (Suc ?i) xs) = length xs - 1" by simp
  with Suc.prems have "k \<le> length (take ?i xs @ drop (Suc ?i) xs)" by simp
  from Suc.IH [OF this] ne show ?case by (simp add: Let_def)
qed

lemma set_draw: "set (draw rng k xs) \<subseteq> set xs"
proof (induction k arbitrary: xs)
  case 0
  show ?case by simp
next
  case (Suc k)
  show ?case
  proof (cases "xs = []")
    case True
    then show ?thesis by simp
  next
    case False
    let ?i = "rng k mod length xs"
    have i: "?i < length xs" using False by simp
    have "set (take ?i xs @ drop (Suc ?i) xs) \<subseteq> set xs"
      by (auto dest: in_set_takeD in_set_dropD)
    with Suc.IH [of "take ?i xs @ drop (Suc ?i) xs"] i False show ?thesis
      by (auto simp: Let_def)
  qed
qed

lemma distinct_remove_nth:
  assumes "distinct xs" "i < length xs"
  shows "distinct (take i xs @ drop (Suc i) xs) \<and> xs ! i \<notin> set (take i xs @ drop (Suc i) xs)"
proof -
  from assms(2) have "xs = take i xs @ xs ! i # drop (Suc i) xs"
    by (simp add: id_take_nth_drop)
  with assms(1) have "distinct (take i xs @ xs ! i # drop (Suc i) xs)" by simp
  then show ?thesis by auto
qed

lemma distinct_draw: "distinct xs \<Longrightarrow> distinct (draw rng k xs)"
proof (induction k arbitrary: xs)
  case 0
  show ?case by simp
next
  case (Suc k)
  show ?case
  proof (cases "xs = []")
    case True
    then show ?thesis by simp
  next
    case False
    let ?i = "rng k mod length xs"
    let ?r = "take ?i xs @ drop (Suc ?i) xs"
    have i: "?i < length xs" using False by simp
    from distinct_remove_nth [OF Suc.prems i]
    have d: "distinct ?r" and n: "xs ! ?i \<notin> set ?r" by simp_all
    from set_draw [of rng k ?r] n have "xs ! ?i \<notin> set (draw rng k ?r)" by blast
    with Suc.IH [OF d] False show ?thesis by (simp add: Let_def)
  qed
qed

lemma set_pairs_of_fst: "(a, b) \<in> set (pairs_of xs) \<Longrightarrow> a \<in> set xs \<and> b \<in> set xs"
  by (induction xs) auto

lemma distinct_pairs_of: "distinct xs \<Longrightarrow> distinct (pairs_of xs)"
proof (induction xs)
  case Nil
  show ?case by simp
next
  case (Cons x xs)
  have "distinct (map (Pair x) xs)" using Cons.prems by (simp add: distinct_map inj_on_def)
  moreover have "set (map (Pair x) xs) \<inter> set (pairs_of xs) = {}"
    using Cons.prems by (auto dest: set_pairs_of_fst)
  ultimately show ?case using Cons by simp
qed

lemma positive_pairs_positive: "p \<in> set (positive_pairs frs) \<Longrightarrow> positive p"
  by (auto simp: positive_pairs_def Let_def)

lemma negative_pairs_negative: "p \<in> set (negative_pairs frs) \<Longrightarrow> \<not> positive p"
  by (simp add: negative_pairs_def)

lemma distinct_positive_pairs: "distinct frs \<Longrightarrow> distinct (positive_pairs frs)"
  by (simp add: positive_pairs_def Let_def distinct_pairs_of)

lemma distinct_negative_pairs: "distinct frs \<Longrightarrow> distinct (negative_pairs frs)"
  by (simp add: negative_pairs_def distinct_pairs_of)

lemma distinct_eligible_fragments: "distinct (eligible_fragments s l cs)"
  by (simp add: eligible_fragments_def)

lemma filter_all: "(\<And>x. x \<in> set xs \<Longrightarrow> P x) \<Longrightarrow> filter P xs = xs"
  by (induction xs) auto

lemma filter_none: "(\<And>x. x \<in> set xs \<Longrightarrow> \<not> P x) \<Longrightarrow> filter P xs = []"
  by (induction xs) auto

lemma make_pairs_result:
  assumes "make_pairs rng contigs fragment_step fragment_length (2 * k) = Inr ps"
  shows "length (filter positive ps) = k \<and> length (filter (\<lambda>p. \<not> positive p) ps) = k \<and> distinct ps"
proof -
  let ?frs = "eligible_fragments fragment_step fragment_length contigs"
  let ?pos = "draw rng k (positive_pairs ?frs)"
  let ?neg = "draw (\<lambda>i. rng (k + i)) k (negative_pairs ?frs)"
  from assms have kp: "k \<le> length (positive_pairs ?frs)" and kn: "k \<le> length (negative_pairs ?frs)"
    and ps: "ps = ?pos @ ?neg"
    by (auto simp: make_pairs_def feasible_pair_count_def Let_def split: if_splits)
  have pp: "positive p" if "p \<in> set ?pos" for p
    using that set_draw [of rng k "positive_pairs ?frs"] positive_pairs_positive by blast
  have nn: "\<not> positive p" if "p \<in> set ?neg" for p
    using that set_draw [of "\<lambda>i. rng (k + i)" k "negative_pairs ?frs"] negative_pairs_negative
    by blast
  have "filter positive ps = ?pos"
    unfolding ps filter_append using pp nn by (simp add: filter_all filter_none)
  moreover have "filter (\<lambda>p. \<not> positive p) ps = ?neg"
    unfolding ps filter_append using pp nn by (simp add: filter_all filter_none)
  moreover have "distinct ps"
  proof -
    have "set ?pos \<inter> set ?neg = {}" using pp nn by blast
    then show ?thesis
      unfolding ps
      by (simp add: distinct_draw distinct_positive_pairs distinct_negative_pairs
          distinct_eligible_fragments)
  qed
  ultimately show ?thesis
    using kp kn by (simp add: length_draw)
qed

text \<open>
  C6. For \<open>n_examples = 2 * k\<close> the sampler returns whenever at least 2 contigs are
  eligible and \<open>k\<close> pairs of each label are feasible, and every result it returns
  holds exactly \<open>k\<close> positive pairs and exactly \<open>k\<close> negative pairs, no pair twice.
\<close>

theorem make_pairs_balanced:
  "(2 \<le> n_eligible fragment_step fragment_length contigs \<and>
    k \<le> length (positive_pairs (eligible_fragments fragment_step fragment_length contigs)) \<and>
    k \<le> length (negative_pairs (eligible_fragments fragment_step fragment_length contigs))
    \<longrightarrow> (\<exists>ps. make_pairs rng contigs fragment_step fragment_length (2 * k) = Inr ps)) \<and>
   (\<forall>ps. make_pairs rng contigs fragment_step fragment_length (2 * k) = Inr ps \<longrightarrow>
      length (filter positive ps) = k \<and> length (filter (\<lambda>p. \<not> positive p) ps) = k \<and>
      distinct ps)"
proof (intro conjI impI allI)
  assume "2 \<le> n_eligible fragment_step fragment_length contigs \<and>
    k \<le> length (positive_pairs (eligible_fragments fragment_step fragment_length contigs)) \<and>
    k \<le> length (negative_pairs (eligible_fragments fragment_step fragment_length contigs))"
  then show "\<exists>ps. make_pairs rng contigs fragment_step fragment_length (2 * k) = Inr ps"
    by (auto simp: make_pairs_def feasible_pair_count_def Let_def)
next
  fix ps
  assume "make_pairs rng contigs fragment_step fragment_length (2 * k) = Inr ps"
  from make_pairs_result [OF this]
  show "length (filter positive ps) = k" "length (filter (\<lambda>p. \<not> positive p) ps) = k" "distinct ps"
    by simp_all
qed

theorem make_pairs_balanced_witness:
  "make_pairs (\<lambda>i. 5 * i + 3) [(1::nat, 10), (2, 8), (3, 3)] 2 4 (2 * 2)
     = Inr [((1, 0, 4), (1, 4, 8)), ((1, 0, 4), (1, 6, 10)), ((1, 4, 8), (2, 0, 4)), ((1, 0, 4), (2, 4, 8))] \<and>
   length (filter positive
     [((1::nat, 0, 4), (1, 4, 8)), ((1, 0, 4), (1, 6, 10)), ((1, 4, 8), (2, 0, 4)), ((1, 0, 4), (2, 4, 8))]) = 2 \<and>
   length (filter (\<lambda>p. \<not> positive p)
     [((1::nat, 0, 4), (1, 4, 8)), ((1, 0, 4), (1, 6, 10)), ((1, 4, 8), (2, 0, 4)), ((1, 0, 4), (2, 4, 8))]) = 2"
proof -
  have r: "make_pairs (\<lambda>i. 5 * i + 3) [(1::nat, 10), (2, 8), (3, 3)] 2 4 (2 * 2)
     = Inr [((1, 0, 4), (1, 4, 8)), ((1, 0, 4), (1, 6, 10)), ((1, 4, 8), (2, 0, 4)), ((1, 0, 4), (2, 4, 8))]"
    by code_simp
  from make_pairs_balanced [of 2 4 "[(1::nat, 10), (2, 8), (3, 3)]" 2 "\<lambda>i. 5 * i + 3"] r
  show ?thesis by simp
qed

text \<open>
  C9. The sampler fails with \<open>InsufficientDataError\<close>, and returns no result, whenever
  fewer than 2 eligible contigs exist or the requested sample count \<open>n_examples\<close>
  exceeds the feasible pair count after deduplication, be that the largest balanced set
  or all feasible pairs of both labels; it fails in no other case and with no other
  error.
\<close>

theorem make_pairs_insufficient:
  "(n_eligible fragment_step fragment_length contigs < 2 \<or>
    feasible_pair_count (eligible_fragments fragment_step fragment_length contigs) < n_examples \<or>
    length (positive_pairs (eligible_fragments fragment_step fragment_length contigs)) +
      length (negative_pairs (eligible_fragments fragment_step fragment_length contigs)) < n_examples
    \<longrightarrow> make_pairs rng contigs fragment_step fragment_length n_examples = Inl InsufficientDataError) \<and>
   (\<forall>e. make_pairs rng contigs fragment_step fragment_length n_examples = Inl e \<longrightarrow>
      e = InsufficientDataError \<and>
      (n_eligible fragment_step fragment_length contigs < 2 \<or>
       feasible_pair_count (eligible_fragments fragment_step fragment_length contigs) < n_examples))"
  by (auto simp: make_pairs_def feasible_pair_count_def Let_def split: if_splits)

theorem make_pairs_insufficient_witness:
  "n_eligible 2 4 [(1::nat, 10), (1, 10), (3, 3)] < 2 \<and>
   make_pairs (\<lambda>i. 5 * i + 3) [(1::nat, 10), (1, 10), (3, 3)] 2 4 4 = Inl InsufficientDataError \<and>
   2 \<le> n_eligible 2 4 [(1::nat, 10), (2, 8), (3, 3)] \<and>
   feasible_pair_count (eligible_fragments 2 4 [(1::nat, 10), (2, 8), (3, 3)]) = 8 \<and>
   make_pairs (\<lambda>i. 5 * i + 3) [(1::nat, 10), (2, 8), (3, 3)] 2 4 9 = Inl InsufficientDataError"
proof -
  have a: "n_eligible 2 4 [(1::nat, 10), (1, 10), (3, 3)] < 2" by code_simp
  have b: "2 \<le> n_eligible 2 4 [(1::nat, 10), (2, 8), (3, 3)]" by code_simp
  have c: "feasible_pair_count (eligible_fragments 2 4 [(1::nat, 10), (2, 8), (3, 3)]) = 8"
    by code_simp
  from make_pairs_insufficient [of 2 4 "[(1::nat, 10), (1, 10), (3, 3)]" 4 "\<lambda>i. 5 * i + 3"]
    make_pairs_insufficient [of 2 4 "[(1::nat, 10), (2, 8), (3, 3)]" 9 "\<lambda>i. 5 * i + 3"] a b c
  show ?thesis by simp
qed

section \<open>Properties of the graph builder\<close>

lemma vote_count_le: "vote_count pairs_for score n_frags u v \<le> n_frags"
proof -
  have "vote_count pairs_for score n_frags u v \<le> length (take n_frags (pairs_for u v))"
    unfolding vote_count_def by (rule length_filter_le)
  then show ?thesis by simp
qed

lemma candidates_not_self: "v \<in> set (candidates prefilter contigs max_neighbors u) \<Longrightarrow> v \<noteq> u"
  unfolding candidates_def by (auto dest: in_set_takeD)

lemma graph_ok_build:
  "graph_ok vote_threshold n_frags
     (build prefilter pairs_for score contigs vote_threshold n_frags max_neighbors)"
  unfolding graph_ok_def build_def
  using candidates_not_self [of _ prefilter contigs max_neighbors]
  by (auto simp: vote_count_le)

text \<open>
  C7. With an artifact for the same input and parameters and \<open>force\<close> false the
  builder returns the stored graph and leaves the artifacts as they are; with \<open>force\<close>
  true it returns the graph computed anew and persists it; and after any run, a run with
  \<open>force\<close> false on the same input and parameters returns the same graph again.
\<close>

theorem make_pregraph_cached:
  "(artifacts (contigs, vote_threshold, n_frags, max_neighbors) = Some cached \<longrightarrow>
      make_pregraph prefilter pairs_for score artifacts contigs vote_threshold n_frags max_neighbors False
        = (cached, artifacts)) \<and>
   make_pregraph prefilter pairs_for score artifacts contigs vote_threshold n_frags max_neighbors True
     = (build prefilter pairs_for score contigs vote_threshold n_frags max_neighbors,
        artifacts((contigs, vote_threshold, n_frags, max_neighbors) \<mapsto>
          build prefilter pairs_for score contigs vote_threshold n_frags max_neighbors)) \<and>
   (\<forall>g artifacts'.
      make_pregraph prefilter pairs_for score artifacts contigs vote_threshold n_frags max_neighbors force
        = (g, artifacts') \<longrightarrow>
      make_pregraph prefilter pairs_for score artifacts' contigs vote_threshold n_frags max_neighbors False
        = (g, artifacts'))"
  by (auto simp: make_pregraph_def Let_def split: option.splits if_splits)

theorem make_pregraph_cached_witness:
  "make_pregraph (\<lambda>u. [1, 2, 3, 4::nat]) (\<lambda>u v. [(u, v, 0::nat), (u, v, 1), (u, v, 2), (u, v, 3)])
     (\<lambda>(u, v, k). if (u + v + k) mod 2 = 0 then 9 / 10 else 1 / 2)
     [([1, 2, 3], 1, 3, 2) \<mapsto> [(1, 2, 3)]] [1, 2, 3] 1 3 2 False
     = ([(1, 2, 3)], [([1, 2, 3], 1, 3, 2) \<mapsto> [(1, 2, 3)]]) \<and>
   fst (make_pregraph (\<lambda>u. [1, 2, 3, 4::nat]) (\<lambda>u v. [(u, v, 0::nat), (u, v, 1), (u, v, 2), (u, v, 3)])
     (\<lambda>(u, v, k). if (u + v + k) mod 2 = 0 then 9 / 10 else 1 / 2)
     [([1, 2, 3], 1, 3, 2) \<mapsto> [(1, 2, 3)]] [1, 2, 3] 1 3 2 True)
     = [(1, 2, 1), (1, 3, 2), (2, 1, 1), (2, 3, 1), (3, 1, 2), (3, 2, 1)]"
  (is "make_pregraph ?pf ?pr ?sc ?a ?cs _ _ _ _ = _ \<and> _")
proof -
  have c: "?a (?cs, 1, 3, 2) = Some [(1, 2, 3)]" by simp
  have b: "build ?pf ?pr ?sc ?cs 1 3 2 = [(1, 2, 1), (1, 3, 2), (2, 1, 1), (2, 3, 1), (3, 1, 2), (3, 2, 1)]"
    by code_simp
  from make_pregraph_cached [where artifacts = ?a and contigs = ?cs and vote_threshold = 1
      and n_frags = 3 and max_neighbors = 2 and cached = "[(1, 2, 3)]" and prefilter = ?pf
      and pairs_for = ?pr and score = ?sc] c b
  show ?thesis by simp
qed

text \<open>
  C8. Every edge \<open>(u, v, vote_count)\<close> of a graph that the builder computes has
  \<open>u \<noteq> v\<close> and \<open>vote_threshold \<le> vote_count \<le> n_frags\<close>; when every stored artifact
  satisfies this for its parameters, so does the graph of every run, cached or not, and
  so do the artifacts after it.
\<close>

theorem make_pregraph_edges:
  "graph_ok vote_threshold n_frags
     (build prefilter pairs_for score contigs vote_threshold n_frags max_neighbors) \<and>
   (artifacts_ok artifacts \<longrightarrow>
      graph_ok vote_threshold n_frags
        (fst (make_pregraph prefilter pairs_for score artifacts contigs vote_threshold n_frags
               max_neighbors force)) \<and>
      artifacts_ok
        (snd (make_pregraph prefilter pairs_for score artifacts contigs vote_threshold n_frags
               max_neighbors force)))"
proof (intro conjI impI)
  show b: "graph_ok vote_threshold n_frags
     (build prefilter pairs_for score contigs vote_threshold n_frags max_neighbors)"
    by (rule graph_ok_build)
  assume ok: "artifacts_ok artifacts"
  show "graph_ok vote_threshold n_frags
        (fst (make_pregraph prefilter pairs_for score artifacts contigs vote_threshold n_frags
               max_neighbors force))"
    using ok b unfolding make_pregraph_def artifacts_ok_def
    by (auto simp: Let_def split: option.splits)
  show "artifacts_ok
        (snd (make_pregraph prefilter pairs_for score artifacts contigs vote_threshold n_frags
               max_neighbors force))"
    using ok b unfolding make_pregraph_def artifacts_ok_def
    by (auto simp: Let_def split: option.splits if_splits)
qed

theorem make_pregraph_edges_witness:
  "graph_ok 1 3 [(1::nat, 2::nat, 1), (1, 3, 2), (2, 1, 1), (2, 3, 1), (3, 1, 2), (3, 2, 1)] \<and>
   fst (make_pregraph (\<lambda>u. [1, 2, 3, 4::nat]) (\<lambda>u v. [(u, v, 0::nat), (u, v, 1), (u, v, 2), (u, v, 3)])
     (\<lambda>(u, v, k). if (u + v + k) mod 2 = 0 then 9 / 10 else 1 / 2)
     Map.empty [1, 2, 3] 1 3 2 False)
     = [(1, 2, 1), (1, 3, 2), (2, 1, 1), (2, 3, 1), (3, 1, 2), (3, 2, 1)]"
  (is "_ \<and> fst (make_pregraph ?pf ?pr ?sc _ ?cs _ _ _ _) = _")
proof -
  have b: "build ?pf ?pr ?sc ?cs 1 3 2 = [(1, 2, 1), (1, 3, 2), (2, 1, 1), (2, 3, 1), (3, 1, 2), (3, 2, 1)]"
    by code_simp
  have ok: "artifacts_ok (Map.empty :: nat list \<times> nat \<times> nat \<times> nat \<rightharpoonup> nat graph)"
    by (simp add: artifacts_ok_def)
  have m: "fst (make_pregraph ?pf ?pr ?sc Map.empty ?cs 1 3 2 False) = build ?pf ?pr ?sc ?cs 1 3 2"
    by (simp add: make_pregraph_def Let_def)
  from make_pregraph_edges [where artifacts = Map.empty and contigs = ?cs and vote_threshold = 1
      and n_frags = 3 and max_neighbors = 2 and prefilter = ?pf and pairs_for = ?pr and score = ?sc
      and force = False] ok b m
  show ?thesis by simp
qed


end
